theory Spec2Isabelle
  imports Main
begin

section \<open>Text: the character classes of the extractor's pattern\<close>

text \<open>
  The lineage explorer (\<^verbatim>\<open>data_lineage.py\<close>) works on Python \<^verbatim>\<open>str\<close> values. A
  \<^typ>\<open>char\<close> stands here for one code point below 256, and the classes below are the
  ones Python's \<^verbatim>\<open>re\<close> module uses for a \<^verbatim>\<open>str\<close> pattern on that range:
  \<^verbatim>\<open>\w\<close> is an alphanumeric code point or the underscore, \<^verbatim>\<open>\s\<close> is a code point
  for which \<^verbatim>\<open>str.isspace\<close> holds. Text with code points from 256 on is outside the
  model.
\<close>

definition is_word_char :: "char \<Rightarrow> bool" where
  "is_word_char c =
     (let n = (of_char c :: nat) in
        (48 \<le> n \<and> n \<le> 57) \<or> (65 \<le> n \<and> n \<le> 90) \<or> n = 95 \<or> (97 \<le> n \<and> n \<le> 122)
        \<or> n = 170 \<or> n = 178 \<or> n = 179 \<or> n = 181 \<or> n = 185 \<or> n = 186
        \<or> (188 \<le> n \<and> n \<le> 190) \<or> (192 \<le> n \<and> n \<le> 214)
        \<or> (216 \<le> n \<and> n \<le> 246) \<or> (248 \<le> n \<and> n \<le> 255))"

definition is_space_char :: "char \<Rightarrow> bool" where
  "is_space_char c =
     (let n = (of_char c :: nat) in
        (9 \<le> n \<and> n \<le> 13) \<or> (28 \<le> n \<and> n \<le> 32) \<or> n = 133 \<or> n = 160)"

text \<open>The character class \<^verbatim>\<open>[\w\.]\<close> of the two capture groups.\<close>

definition is_ident_char :: "char \<Rightarrow> bool" where
  "is_ident_char c = (is_word_char c \<or> c = CHR ''.'')"

text \<open>
  Lower-casing as \<^verbatim>\<open>re.IGNORECASE\<close> applies it to a literal: on this range only the
  upper-case letters change (\<^verbatim>\<open>A-Z\<close> and the accented capitals, without the
  multiplication sign).
\<close>

definition lower_char :: "char \<Rightarrow> char" where
  "lower_char c =
     (let n = (of_char c :: nat) in
        if (65 \<le> n \<and> n \<le> 90) \<or> (192 \<le> n \<and> n \<le> 222 \<and> n \<noteq> 215)
        then char_of (n + 32) else c)"

text \<open>
  A literal keyword (given in lower case) matched at the head of the text, ignoring case;
  the result is the text after the keyword.
\<close>

fun match_keyword :: "string \<Rightarrow> string \<Rightarrow> string option" where
  "match_keyword [] s = Some s"
| "match_keyword (k # ks) [] = None"
| "match_keyword (k # ks) (c # cs) =
     (if lower_char c = k then match_keyword ks cs else None)"

text \<open>
  The tail \<^verbatim>\<open>\s+([\w\.]+)\<close> of either alternative: at least one white-space character,
  then the longest non-empty run of identifier characters. The two classes are disjoint,
  so the greedy match is the only one. The result is the captured run and the text after
  it.
\<close>

definition match_spaces_ident :: "string \<Rightarrow> (string \<times> string) option" where
  "match_spaces_ident s =
     (let after = dropWhile is_space_char s;
          ident = takeWhile is_ident_char after
      in if takeWhile is_space_char s = [] \<or> ident = [] then None
         else Some (ident, dropWhile is_ident_char after))"

text \<open>
  \<^verbatim>\<open>\b\<close> holds between two positions exactly when one side is a word character and
  the other is not; the ends of the text count as non-word. The flag \<open>prev\<close> says whether
  the character before the position is a word character.
\<close>

definition word_boundary :: "bool \<Rightarrow> string \<Rightarrow> bool" where
  "word_boundary prev s = (prev \<noteq> (case s of [] \<Rightarrow> False | c # _ \<Rightarrow> is_word_char c))"

text \<open>
  One attempt of the pattern
  \<^verbatim>\<open>\bFROM\s+([\w\.]+)|\bJOIN\s+([\w\.]+)\<close>
  at a position: the pair of groups (the group of the alternative that did not take part
  is the empty string, as \<^verbatim>\<open>re.findall\<close> reports it) and the text after the match.
\<close>

definition match_here :: "bool \<Rightarrow> string \<Rightarrow> ((string \<times> string) \<times> string) option" where
  "match_here prev s =
     (if \<not> word_boundary prev s then None
      else case (case match_keyword ''from'' s of None \<Rightarrow> None
                 | Some r \<Rightarrow> match_spaces_ident r) of
             Some (g, rest) \<Rightarrow> Some ((g, []), rest)
           | None \<Rightarrow>
               (case (case match_keyword ''join'' s of None \<Rightarrow> None
                      | Some r \<Rightarrow> match_spaces_ident r) of
                  Some (g, rest) \<Rightarrow> Some (([], g), rest)
                | None \<Rightarrow> None))"

lemma match_keyword_length:
  "match_keyword ks s = Some r \<Longrightarrow> length r + length ks = length s"
  by (induction ks s rule: match_keyword.induct) (auto split: if_splits)

lemma match_spaces_ident_length:
  "match_spaces_ident s = Some (g, r) \<Longrightarrow> length r < length s"
proof -
  assume m: "match_spaces_ident s = Some (g, r)"
  then have g: "takeWhile is_ident_char (dropWhile is_space_char s) \<noteq> []"
    and r: "r = dropWhile is_ident_char (dropWhile is_space_char s)"
    by (auto simp: match_spaces_ident_def Let_def split: if_splits)
  have "length (takeWhile is_ident_char (dropWhile is_space_char s)) + length r
        = length (dropWhile is_space_char s)"
    unfolding r by (metis length_append takeWhile_dropWhile_id)
  moreover have "length (dropWhile is_space_char s) \<le> length s"
    by (rule length_dropWhile_le)
  ultimately show ?thesis using g by (cases "takeWhile is_ident_char (dropWhile is_space_char s)") auto
qed

lemma match_here_length:
  "match_here prev s = Some (gs, r) \<Longrightarrow> length r < length s"
  by (auto simp: match_here_def split: if_splits option.splits prod.splits
           dest!: match_keyword_length match_spaces_ident_length)

text \<open>
  \<^verbatim>\<open>re.findall\<close>: the text is scanned from left to right; a match is recorded and the
  scan goes on right after it, otherwise it moves one character on. The last character of
  a match is the last character of its captured group.
\<close>

function findall :: "bool \<Rightarrow> string \<Rightarrow> (string \<times> string) list" where
  "findall prev [] = []"
| "findall prev (c # cs) =
     (case match_here prev (c # cs) of
        Some (gs, rest) \<Rightarrow> gs # findall (is_word_char (last (fst gs @ snd gs))) rest
      | None \<Rightarrow> findall (is_word_char c) cs)"
  by pat_completeness auto
termination
  by (relation "measure (\<lambda>(p, s). length s)") (auto dest: match_here_length)


section \<open>The dependency extractor\<close>

text \<open>
  \<^verbatim>\<open>str.strip()\<close> removes the white space at both ends.
\<close>

definition strip :: "string \<Rightarrow> string" where
  "strip s = rev (dropWhile is_space_char (rev (dropWhile is_space_char s)))"

text \<open>
  A Python \<^verbatim>\<open>set\<close> of strings is kept as the list of its distinct elements.
  \<^verbatim>\<open>list(dependencies)\<close> yields them in the set's iteration order, which the
  language leaves open (it follows the hash values of the elements). The order is a
  parameter of the model: the elements are sorted by a key that may be any function
  of the set's content, so every arrangement of the elements is covered.
\<close>

type_synonym set_order = "string list \<Rightarrow> string \<Rightarrow> nat"

definition set_add :: "string list \<Rightarrow> string \<Rightarrow> string list" where
  "set_add xs x = (if x \<in> set xs then xs else xs @ [x])"

definition list_of_set :: "set_order \<Rightarrow> string list \<Rightarrow> string list" where
  "list_of_set ord xs = sort_key (ord xs) xs"

text \<open>
  \<^verbatim>\<open>extract_dependencies\<close>: every non-empty group of every match is stripped and added to
  the set.
\<close>

definition add_items :: "string \<times> string \<Rightarrow> string list \<Rightarrow> string list" where
  "add_items match dependencies =
     fold (\<lambda>item deps. if item \<noteq> [] then set_add deps (strip item) else deps)
          [fst match, snd match] dependencies"

definition dependency_set :: "string \<Rightarrow> string list" where
  "dependency_set view_sql = fold add_items (findall False view_sql) []"

definition extract_dependencies :: "set_order \<Rightarrow> string \<Rightarrow> string list" where
  "extract_dependencies ord view_sql = list_of_set ord (dependency_set view_sql)"

section \<open>The catalog and the two fetches\<close>

text \<open>
  The database is what the two fetch functions see of it. A fetch obtains a connection
  (\<^verbatim>\<open>get_teradata_connection\<close> gives \<^verbatim>\<open>None\<close> when connecting fails), runs its query
  and reads the result; the query or the read may raise. The catalog lists, per queried
  name, which of these happens; a name that is not listed has no row.
\<close>

record column_meta =
  ColumnName :: string
  ColumnFormat :: "string option"
  ColumnType :: string
  ColumnLength :: int
  Nullable :: string
  CompressValueList :: "string option"

datatype view_fetch =
    VNoConnection
  | VRaises string
  | VNoRow
  | VRow "string option"

datatype table_fetch =
    TNoConnection
  | TRaises string
  | TRows "column_meta list"

record catalog =
  view_rows :: "(string \<times> view_fetch) list"
  table_rows :: "((string \<times> string) \<times> table_fetch) list"

definition view_outcome :: "catalog \<Rightarrow> string \<Rightarrow> view_fetch" where
  "view_outcome cat view_name =
     (case map_of (view_rows cat) view_name of None \<Rightarrow> VNoRow | Some r \<Rightarrow> r)"

definition table_outcome :: "catalog \<Rightarrow> string \<Rightarrow> string \<Rightarrow> table_fetch" where
  "table_outcome cat database_name table_name =
     (case map_of (table_rows cat) (database_name, table_name) of
        None \<Rightarrow> TRows [] | Some r \<Rightarrow> r)"

text \<open>
  The graph is a \<^verbatim>\<open>networkx.DiGraph\<close>: nodes and edges in insertion order, no parallel
  edges. \<^verbatim>\<open>add_edge(u, v)\<close> adds the end points that are not nodes yet, \<open>u\<close> first.
\<close>

record digraph =
  nodes :: "string list"
  edges :: "(string \<times> string) list"

definition add_node :: "digraph \<Rightarrow> string \<Rightarrow> digraph" where
  "add_node g n = (if n \<in> set (nodes g) then g else g\<lparr>nodes := nodes g @ [n]\<rparr>)"

definition add_edge :: "digraph \<Rightarrow> string \<Rightarrow> string \<Rightarrow> digraph" where
  "add_edge g u v =
     (let g' = add_node (add_node g u) v
      in if (u, v) \<in> set (edges g') then g' else g'\<lparr>edges := edges g' @ [(u, v)]\<rparr>)"

text \<open>
  A Python \<^verbatim>\<open>dict\<close> keeps its keys in insertion order; assigning to a key that is
  present replaces the value in place.
\<close>

fun dict_set :: "('k \<times> 'v) list \<Rightarrow> 'k \<Rightarrow> 'v \<Rightarrow> ('k \<times> 'v) list" where
  "dict_set [] k v = [(k, v)]"
| "dict_set ((k', v') # kvs) k v =
     (if k' = k then (k, v) # kvs else (k', v') # dict_set kvs k v)"

text \<open>
  The state of one lineage request: the four objects \<^verbatim>\<open>build_full_lineage\<close> mutates,
  the \<^verbatim>\<open>st.error\<close> messages shown so far, and the trace of the calls of the two fetch
  functions.
\<close>

datatype fetch_call = ViewFetch string | TableFetch string string

record lineage_state =
  graph :: digraph
  visited :: "string set"
  ddl_dict :: "(string \<times> string) list"
  table_metadata_dict :: "(string \<times> column_meta list) list"
  errors :: "string list"
  fetches :: "fetch_call list"

text \<open>
  What ends the run instead of a return: \<^verbatim>\<open>st.stop()\<close> raises Streamlit's
  \<^verbatim>\<open>StopException\<close>, which is not an \<^verbatim>\<open>Exception\<close> and so passes the
  \<^verbatim>\<open>except Exception\<close> of the fetch it is raised in; unpacking a split that has not
  two parts raises \<^verbatim>\<open>ValueError\<close>. Python's limit on the depth of recursion is not
  modelled.
\<close>

datatype halt = StopException | ValueError

definition fetch_view_definition ::
  "catalog \<Rightarrow> string \<Rightarrow> lineage_state \<Rightarrow> halt + (string option \<times> lineage_state)" where
  "fetch_view_definition cat view_name s =
     (let s' = s\<lparr>fetches := fetches s @ [ViewFetch view_name]\<rparr> in
      case view_outcome cat view_name of
        VNoConnection \<Rightarrow> Inl StopException
      | VRaises e \<Rightarrow>
          Inr (None, s'\<lparr>errors := errors s' @ [''Error fetching view definition: '' @ e]\<rparr>)
      | VNoRow \<Rightarrow> Inr (None, s')
      | VRow r \<Rightarrow> Inr (r, s'))"

definition fetch_table_metadata ::
  "catalog \<Rightarrow> string \<Rightarrow> string \<Rightarrow> lineage_state
     \<Rightarrow> halt + (column_meta list option \<times> lineage_state)" where
  "fetch_table_metadata cat database_name table_name s =
     (let s' = s\<lparr>fetches := fetches s @ [TableFetch database_name table_name]\<rparr> in
      case table_outcome cat database_name table_name of
        TNoConnection \<Rightarrow> Inl StopException
      | TRaises e \<Rightarrow>
          Inr (None, s'\<lparr>errors := errors s' @
                 [''Error fetching metadata for table '' @ database_name @ ''.'' @ table_name
                  @ '': '' @ e]\<rparr>)
      | TRows rows \<Rightarrow> (if rows \<noteq> [] then Inr (Some rows, s') else Inr (None, s')))"

section \<open>The recursive lineage builder\<close>

text \<open>\<^verbatim>\<open>str.split(sep, 1)\<close>: the text before the first separator and the text after it.\<close>

definition split_once :: "char \<Rightarrow> string \<Rightarrow> string list" where
  "split_once sep s =
     (case dropWhile (\<lambda>c. c \<noteq> sep) s of
        [] \<Rightarrow> [s]
      | _ # rest \<Rightarrow> [takeWhile (\<lambda>c. c \<noteq> sep) s, rest])"

text \<open>The schema and the table name a table candidate is looked up with.\<close>

definition split_name :: "string \<Rightarrow> halt + (string \<times> string)" where
  "split_name view_name =
     (if CHR ''.'' \<in> set view_name
      then (case split_once CHR ''.'' view_name of
              [db_name, tbl_name] \<Rightarrow> Inr (db_name, tbl_name)
            | _ \<Rightarrow> Inl ValueError)
      else Inr (''dbc'', view_name))"

text \<open>The \<^verbatim>\<open>else\<close> branch of \<^verbatim>\<open>build_full_lineage\<close>: the name as a table candidate.\<close>

definition resolve_table :: "catalog \<Rightarrow> string \<Rightarrow> lineage_state \<Rightarrow> halt + lineage_state" where
  "resolve_table cat view_name s =
     (case split_name view_name of
        Inl h \<Rightarrow> Inl h
      | Inr (db_name, tbl_name) \<Rightarrow>
          (case fetch_table_metadata cat db_name tbl_name s of
             Inl h \<Rightarrow> Inl h
           | Inr (None, s') \<Rightarrow> Inr s'
           | Inr (Some metadata, s') \<Rightarrow>
               Inr (s'\<lparr>table_metadata_dict :=
                         dict_set (table_metadata_dict s') view_name metadata\<rparr>)))"

text \<open>
  The text of a fetched definition, \<^verbatim>\<open>None\<close> read as the empty text: the definition is
  truthy, as \<^verbatim>\<open>if view_sql:\<close> tests it, exactly when this text is not empty.
\<close>

fun text_of :: "string option \<Rightarrow> string" where
  "text_of None = []"
| "text_of (Some t) = t"

text \<open>
  \<^verbatim>\<open>build_full_lineage\<close> and its loop over the dependencies of a view.
\<close>

function build_full_lineage ::
    "set_order \<Rightarrow> catalog \<Rightarrow> string \<Rightarrow> lineage_state \<Rightarrow> halt + lineage_state"
  and for_dependencies ::
    "set_order \<Rightarrow> catalog \<Rightarrow> string \<Rightarrow> string list \<Rightarrow> lineage_state \<Rightarrow> halt + lineage_state"
where
  "build_full_lineage ord cat view_name s =
     (if view_name \<in> visited s then Inr s
      else case fetch_view_definition cat view_name
                  (s\<lparr>visited := insert view_name (visited s)\<rparr>) of
             Inl h \<Rightarrow> Inl h
           | Inr (view_sql, s') \<Rightarrow>
               (if text_of view_sql \<noteq> []
                then for_dependencies ord cat view_name
                       (extract_dependencies ord (text_of view_sql))
                       (s'\<lparr>ddl_dict := dict_set (ddl_dict s') view_name (text_of view_sql)\<rparr>)
                else resolve_table cat view_name s'))"
| "for_dependencies ord cat view_name [] s = Inr s"
| "for_dependencies ord cat view_name (dep # deps) s =
     (case build_full_lineage ord cat dep
             (s\<lparr>graph := add_edge (graph s) dep view_name\<rparr>) of
        Inl h \<Rightarrow> Inl h
      | Inr s' \<Rightarrow> for_dependencies ord cat view_name deps s')"
  by pat_completeness auto

text \<open>
  Termination: a name is expanded only when the catalog lists it and it has not been
  visited, and it is visited from then on; the visited set never shrinks.
\<close>

definition view_names :: "catalog \<Rightarrow> string set" where
  "view_names cat = fst ` set (view_rows cat)"

lemma finite_view_names: "finite (view_names cat)"
  by (simp add: view_names_def)

lemma fetch_view_definition_visited:
  "fetch_view_definition cat n s = Inr (r, s') \<Longrightarrow> visited s' = visited s"
  by (auto simp: fetch_view_definition_def Let_def split: view_fetch.splits)

lemma fetch_view_definition_listed:
  "fetch_view_definition cat n s = Inr (r, s') \<Longrightarrow> text_of r \<noteq> [] \<Longrightarrow> n \<in> view_names cat"
  by (auto simp: fetch_view_definition_def view_outcome_def view_names_def Let_def
           split: view_fetch.splits option.splits dest: map_of_SomeD intro: rev_image_eqI)

lemma fetch_table_metadata_visited:
  "fetch_table_metadata cat d t s = Inr (r, s') \<Longrightarrow> visited s' = visited s"
  by (auto simp: fetch_table_metadata_def Let_def split: table_fetch.splits if_splits)

lemma resolve_table_visited:
  "resolve_table cat n s = Inr s' \<Longrightarrow> visited s' = visited s"
  by (auto simp: resolve_table_def split: sum.splits prod.splits option.splits
           dest: fetch_table_metadata_visited)

lemma visited_grows_partial:
  "build_full_lineage_for_dependencies_dom (Inl (ord, cat, n, s)) \<Longrightarrow>
     build_full_lineage ord cat n s = Inr s' \<Longrightarrow> visited s \<subseteq> visited s'"
  "build_full_lineage_for_dependencies_dom (Inr (ord, cat, n, ds, s)) \<Longrightarrow>
     for_dependencies ord cat n ds s = Inr s' \<Longrightarrow> visited s \<subseteq> visited s'"
proof (induct ord cat n s and ord cat n ds s arbitrary: s' and s'
       rule: build_full_lineage_for_dependencies.pinduct)
  case (1 ord cat view_name s)
  show ?case
  proof (cases "view_name \<in> visited s")
    case True
    with 1 show ?thesis by (simp add: build_full_lineage.psimps)
  next
    case False
    from 1(1,3) False obtain r s1 where
      f: "fetch_view_definition cat view_name (s\<lparr>visited := insert view_name (visited s)\<rparr>)
            = Inr (r, s1)"
      by (auto simp: build_full_lineage.psimps split: sum.splits)
    have v1: "visited s1 = insert view_name (visited s)"
      using fetch_view_definition_visited [OF f] by simp
    show ?thesis
    proof (cases "text_of r \<noteq> []")
      case True
      with 1(1,3) False f have
        "for_dependencies ord cat view_name (extract_dependencies ord (text_of r))
           (s1\<lparr>ddl_dict := dict_set (ddl_dict s1) view_name (text_of r)\<rparr>) = Inr s'"
        by (simp add: build_full_lineage.psimps)
      from 1(2) [OF False f refl True this] v1 show ?thesis by auto
    next
      case F: False
      with 1(1,3) False f have "resolve_table cat view_name s1 = Inr s'"
        by (simp add: build_full_lineage.psimps)
      from resolve_table_visited [OF this] v1 show ?thesis by auto
    qed
  qed
next
  case (2 ord cat view_name s)
  then show ?case by (simp add: for_dependencies.psimps)
next
  case (3 ord cat view_name dep deps s)
  from 3(1,4) obtain s1 where
    b: "build_full_lineage ord cat dep (s\<lparr>graph := add_edge (graph s) dep view_name\<rparr>) = Inr s1"
    and f: "for_dependencies ord cat view_name deps s1 = Inr s'"
    by (auto simp: for_dependencies.psimps split: sum.splits)
  from 3(2) [OF b] 3(3) [OF b f] show ?case by auto
qed

termination build_full_lineage
proof (relation "measures
    [\<lambda>x. case x of Inl (ord, cat, n, s) \<Rightarrow> card (view_names cat - visited s)
               | Inr (ord, cat, n, ds, s) \<Rightarrow> card (view_names cat - visited s),
     \<lambda>x. case x of Inl (ord, cat, n, s) \<Rightarrow> 0
               | Inr (ord, cat, n, ds, s) \<Rightarrow> Suc (length ds)]", goal_cases)
  case 1
  show ?case by simp
next
  case (2 ord cat view_name s b x y)
  from 2(2,3) have f: "fetch_view_definition cat view_name
      (s\<lparr>visited := insert view_name (visited s)\<rparr>) = Inr (x, y)" by simp
  have v: "visited y = insert view_name (visited s)"
    using fetch_view_definition_visited [OF f] by simp
  have l: "view_name \<in> view_names cat"
    using fetch_view_definition_listed [OF f 2(4)] .
  have "view_names cat - visited y \<subset> view_names cat - visited s"
    using v l 2(1) by auto
  then have "card (view_names cat - visited y) < card (view_names cat - visited s)"
    by (intro psubset_card_mono) (simp_all add: finite_view_names)
  then show ?case by simp
next
  case (3 ord cat view_name dep deps s)
  show ?case by simp
next
  case (4 ord cat view_name dep deps s s')
  have "visited s \<subseteq> visited s'"
    using visited_grows_partial(1) [OF 4(2) 4(1)] by simp
  then have "card (view_names cat - visited s') \<le> card (view_names cat - visited s)"
    by (intro card_mono) (auto simp: finite_view_names)
  then show ?case by auto
qed


declare build_full_lineage.simps [simp del]

section \<open>One lineage request and its report\<close>

text \<open>
  The objects a request starts from: \<^verbatim>\<open>G = nx.DiGraph()\<close>, \<^verbatim>\<open>visited = set()\<close>,
  \<^verbatim>\<open>ddl_dict = {}\<close>, \<^verbatim>\<open>table_metadata_dict = {}\<close>.
\<close>

definition initial_state :: lineage_state where
  "initial_state =
     \<lparr>graph = \<lparr>nodes = [], edges = []\<rparr>, visited = {}, ddl_dict = [],
      table_metadata_dict = [], errors = [], fetches = []\<rparr>"

definition generate_lineage :: "set_order \<Rightarrow> catalog \<Rightarrow> string \<Rightarrow> halt + lineage_state" where
  "generate_lineage ord cat view_name = build_full_lineage ord cat view_name initial_state"

text \<open>
  The two sections of the report, as the names of their expanders in the order they are
  drawn: \<^verbatim>\<open>reversed(list(ddl_dict.keys()))\<close> for the view definitions,
  \<^verbatim>\<open>table_metadata_dict.items()\<close> for the table metadata.
\<close>

definition view_section :: "lineage_state \<Rightarrow> string list" where
  "view_section s = rev (map fst (ddl_dict s))"

definition table_section :: "lineage_state \<Rightarrow> string list" where
  "table_section s = map fst (table_metadata_dict s)"

section \<open>What the catalog answers for a name\<close>

text \<open>
  The definition text \<^verbatim>\<open>fetch_view_definition\<close> returns for a name (empty when it
  returns \<^verbatim>\<open>None\<close>), the rows \<^verbatim>\<open>fetch_table_metadata\<close> returns for it as a table
  candidate, and whether the fetches for it obtain their connection.
\<close>

definition view_text :: "catalog \<Rightarrow> string \<Rightarrow> string" where
  "view_text cat n = (case view_outcome cat n of VRow r \<Rightarrow> text_of r | _ \<Rightarrow> [])"

definition table_columns :: "catalog \<Rightarrow> string \<Rightarrow> column_meta list" where
  "table_columns cat n =
     (case split_name n of
        Inl h \<Rightarrow> []
      | Inr (db_name, tbl_name) \<Rightarrow>
          (case table_outcome cat db_name tbl_name of TRows rows \<Rightarrow> rows | _ \<Rightarrow> []))"

section \<open>Splitting a name\<close>

lemma split_once_dot:
  assumes "sep \<in> set s"
  shows "split_once sep s = [takeWhile (\<lambda>c. c \<noteq> sep) s, tl (dropWhile (\<lambda>c. c \<noteq> sep) s)]"
proof -
  from assms have "dropWhile (\<lambda>c. c \<noteq> sep) s \<noteq> []"
    by (auto simp: dropWhile_eq_Nil_conv)
  then show ?thesis
    by (cases "dropWhile (\<lambda>c. c \<noteq> sep) s") (simp_all add: split_once_def)
qed

lemma dropWhile_neq_hd:
  assumes "sep \<in> set s"
  shows "dropWhile (\<lambda>c. c \<noteq> sep) s = sep # tl (dropWhile (\<lambda>c. c \<noteq> sep) s)"
proof -
  from assms have ne: "dropWhile (\<lambda>c. c \<noteq> sep) s \<noteq> []"
    by (auto simp: dropWhile_eq_Nil_conv)
  then have "\<not> (hd (dropWhile (\<lambda>c. c \<noteq> sep) s) \<noteq> sep)"
    by (rule hd_dropWhile)
  with ne show ?thesis
    by (cases "dropWhile (\<lambda>c. c \<noteq> sep) s") simp_all
qed

lemma split_name_dotted:
  assumes "CHR ''.'' \<in> set n"
  shows "split_name n = Inr (takeWhile (\<lambda>c. c \<noteq> CHR ''.'') n,
                            tl (dropWhile (\<lambda>c. c \<noteq> CHR ''.'') n))"
  using assms by (simp add: split_name_def split_once_dot)

lemma split_name_bare:
  "CHR ''.'' \<notin> set n \<Longrightarrow> split_name n = Inr (''dbc'', n)"
  by (simp add: split_name_def)

lemma split_name_total: "\<exists>db tbl. split_name n = Inr (db, tbl)"
  by (cases "CHR ''.'' \<in> set n") (simp_all add: split_name_dotted split_name_bare)

lemma split_name_append:
  assumes "CHR ''.'' \<notin> set db"
  shows "split_name (db @ ''.'' @ tbl) = Inr (db, tbl)"
proof -
  have d: "CHR ''.'' \<in> set (db @ ''.'' @ tbl)" by simp
  have t: "takeWhile (\<lambda>c. c \<noteq> CHR ''.'') (db @ ''.'' @ tbl) = db"
    using assms by (induction db) auto
  have r: "dropWhile (\<lambda>c. c \<noteq> CHR ''.'') (db @ ''.'' @ tbl) = ''.'' @ tbl"
    using assms by (induction db) auto
  from split_name_dotted [OF d] show ?thesis
    by (simp only: t r) simp
qed

section \<open>The steps of the builder\<close>

definition view_result :: "catalog \<Rightarrow> string \<Rightarrow> string option" where
  "view_result cat n = (case view_outcome cat n of VRow r \<Rightarrow> r | _ \<Rightarrow> None)"

definition view_errors :: "catalog \<Rightarrow> string \<Rightarrow> string list" where
  "view_errors cat n =
     (case view_outcome cat n of
        VRaises e \<Rightarrow> [''Error fetching view definition: '' @ e] | _ \<Rightarrow> [])"

definition entered :: "catalog \<Rightarrow> string \<Rightarrow> lineage_state \<Rightarrow> lineage_state" where
  "entered cat n s =
     s\<lparr>visited := insert n (visited s), fetches := fetches s @ [ViewFetch n],
       errors := errors s @ view_errors cat n\<rparr>"

lemma view_text_result: "view_text cat n = text_of (view_result cat n)"
  by (simp add: view_text_def view_result_def split: view_fetch.splits)

lemma fetch_view_definition_stop:
  "view_outcome cat n = VNoConnection \<Longrightarrow> fetch_view_definition cat n s = Inl StopException"
  by (simp add: fetch_view_definition_def)

lemma fetch_view_definition_eq:
  "view_outcome cat n \<noteq> VNoConnection \<Longrightarrow>
     fetch_view_definition cat n (s\<lparr>visited := insert n (visited s)\<rparr>)
       = Inr (view_result cat n, entered cat n s)"
  by (cases "view_outcome cat n")
     (simp_all add: fetch_view_definition_def view_result_def view_errors_def entered_def)

lemma view_text_no_errors: "view_text cat n \<noteq> [] \<Longrightarrow> view_errors cat n = []"
  by (cases "view_outcome cat n") (simp_all add: view_text_def view_errors_def)

lemma build_visited: "n \<in> visited s \<Longrightarrow> build_full_lineage ord cat n s = Inr s"
  by (simp add: build_full_lineage.simps)

lemma build_stop:
  "n \<notin> visited s \<Longrightarrow> view_outcome cat n = VNoConnection \<Longrightarrow>
     build_full_lineage ord cat n s = Inl StopException"
  by (simp add: build_full_lineage.simps fetch_view_definition_stop)

lemma build_view:
  "n \<notin> visited s \<Longrightarrow> view_outcome cat n \<noteq> VNoConnection \<Longrightarrow> view_text cat n \<noteq> [] \<Longrightarrow>
     build_full_lineage ord cat n s =
       for_dependencies ord cat n (extract_dependencies ord (view_text cat n))
         ((entered cat n s)\<lparr>ddl_dict := dict_set (ddl_dict s) n (view_text cat n)\<rparr>)"
  by (simp add: build_full_lineage.simps fetch_view_definition_eq view_text_result entered_def)

lemma build_leaf:
  "n \<notin> visited s \<Longrightarrow> view_outcome cat n \<noteq> VNoConnection \<Longrightarrow> view_text cat n = [] \<Longrightarrow>
     build_full_lineage ord cat n s = resolve_table cat n (entered cat n s)"
  by (simp add: build_full_lineage.simps fetch_view_definition_eq view_text_result)

lemma build_induct [case_names visited stop view leaf nil cons]:
  assumes vis: "\<And>n s. n \<in> visited s \<Longrightarrow> P n s"
    and stop: "\<And>n s. n \<notin> visited s \<Longrightarrow> view_outcome cat n = VNoConnection \<Longrightarrow> P n s"
    and view: "\<And>n s. n \<notin> visited s \<Longrightarrow> view_outcome cat n \<noteq> VNoConnection \<Longrightarrow>
                 view_text cat n \<noteq> [] \<Longrightarrow>
                 Q n (extract_dependencies ord (view_text cat n))
                   ((entered cat n s)\<lparr>ddl_dict := dict_set (ddl_dict s) n (view_text cat n)\<rparr>) \<Longrightarrow>
                 P n s"
    and leaf: "\<And>n s. n \<notin> visited s \<Longrightarrow> view_outcome cat n \<noteq> VNoConnection \<Longrightarrow>
                 view_text cat n = [] \<Longrightarrow> P n s"
    and nil: "\<And>n s. Q n [] s"
    and cons: "\<And>n d ds s. P d (s\<lparr>graph := add_edge (graph s) d n\<rparr>) \<Longrightarrow>
                 (\<And>s'. build_full_lineage ord cat d (s\<lparr>graph := add_edge (graph s) d n\<rparr>) = Inr s'
                        \<Longrightarrow> Q n ds s') \<Longrightarrow>
                 Q n (d # ds) s"
  shows "P n s" and "Q n ds s"
proof -
  have "ord' = ord \<Longrightarrow> cat' = cat \<Longrightarrow> P n s"
    and "ord' = ord \<Longrightarrow> cat' = cat \<Longrightarrow> Q n ds s" for ord' cat'
  proof (induction ord' cat' n s and ord' cat' n ds s
         rule: build_full_lineage_for_dependencies.induct)
    case (1 ord' cat' view_name s)
    note eqs = "1.prems"
    show ?case
    proof (cases "view_name \<in> visited s")
      case True
      then show ?thesis by (rule vis)
    next
      case nv: False
      show ?thesis
      proof (cases "view_outcome cat view_name = VNoConnection")
        case True
        with nv show ?thesis by (rule stop)
      next
        case conn: False
        show ?thesis
        proof (cases "view_text cat view_name = []")
          case True
          with nv conn show ?thesis by (rule leaf)
        next
          case has_text: False
          have f: "fetch_view_definition cat' view_name
                     (s\<lparr>visited := insert view_name (visited s)\<rparr>)
                   = Inr (view_result cat view_name, entered cat view_name s)"
            using fetch_view_definition_eq [OF conn] eqs by simp
          have t: "text_of (view_result cat view_name) \<noteq> []"
            using has_text by (simp add: view_text_result)
          have "Q view_name (extract_dependencies ord' (text_of (view_result cat view_name)))
                  ((entered cat view_name s)\<lparr>ddl_dict :=
                     dict_set (ddl_dict (entered cat view_name s)) view_name
                       (text_of (view_result cat view_name))\<rparr>)"
            by (rule "1.IH" [OF nv f refl t eqs])
          then have "Q view_name (extract_dependencies ord (view_text cat view_name))
                  ((entered cat view_name s)\<lparr>ddl_dict :=
                     dict_set (ddl_dict s) view_name (view_text cat view_name)\<rparr>)"
            using eqs by (simp add: view_text_result entered_def)
          with nv conn has_text show ?thesis by (rule view)
        qed
      qed
    qed
  next
    case (2 ord' cat' view_name s)
    show ?case by (rule nil)
  next
    case (3 ord' cat' view_name dep deps s)
    note eqs = "3.prems"
    show ?case
    proof (rule cons)
      show "P dep (s\<lparr>graph := add_edge (graph s) dep view_name\<rparr>)"
        by (rule "3.IH"(1) [OF eqs])
    next
      fix s'
      assume "build_full_lineage ord cat dep (s\<lparr>graph := add_edge (graph s) dep view_name\<rparr>)
                = Inr s'"
      then have "build_full_lineage ord' cat' dep
                   (s\<lparr>graph := add_edge (graph s) dep view_name\<rparr>) = Inr s'"
        using eqs by simp
      then show "Q view_name deps s'" by (rule "3.IH"(2) [OF _ eqs])
    qed
  qed
  from this [OF refl refl] show "P n s" and "Q n ds s" .
qed

definition table_errors :: "catalog \<Rightarrow> string \<Rightarrow> string list" where
  "table_errors cat n =
     (case split_name n of
        Inl h \<Rightarrow> []
      | Inr (db_name, tbl_name) \<Rightarrow>
          (case table_outcome cat db_name tbl_name of
             TRaises e \<Rightarrow> [''Error fetching metadata for table '' @ db_name @ ''.'' @ tbl_name
                            @ '': '' @ e]
           | _ \<Rightarrow> []))"

definition table_connects :: "catalog \<Rightarrow> string \<Rightarrow> bool" where
  "table_connects cat n =
     (case split_name n of
        Inl h \<Rightarrow> False
      | Inr (db_name, tbl_name) \<Rightarrow> table_outcome cat db_name tbl_name \<noteq> TNoConnection)"

definition table_call :: "string \<Rightarrow> fetch_call" where
  "table_call n =
     (case split_name n of
        Inl h \<Rightarrow> TableFetch [] []
      | Inr (db_name, tbl_name) \<Rightarrow> TableFetch db_name tbl_name)"

lemma resolve_table_stop:
  "\<not> table_connects cat n \<Longrightarrow> resolve_table cat n s = Inl StopException"
  using split_name_total [of n]
  by (auto simp: resolve_table_def table_connects_def fetch_table_metadata_def)

lemma resolve_table_eq:
  assumes "table_connects cat n"
  shows "resolve_table cat n s =
           Inr (s\<lparr>fetches := fetches s @ [table_call n],
                  errors := errors s @ table_errors cat n,
                  table_metadata_dict :=
                    (if table_columns cat n \<noteq> []
                     then dict_set (table_metadata_dict s) n (table_columns cat n)
                     else table_metadata_dict s)\<rparr>)"
proof -
  obtain db tbl where sp: "split_name n = Inr (db, tbl)"
    using split_name_total by blast
  show ?thesis
    using assms sp
    by (cases "table_outcome cat db tbl")
       (simp_all add: resolve_table_def table_connects_def fetch_table_metadata_def
          table_call_def table_errors_def table_columns_def)
qed

section \<open>The table candidate and its schema\<close>

lemma table_call_bare: "CHR ''.'' \<notin> set n \<Longrightarrow> table_call n = TableFetch ''dbc'' n"
  by (simp add: table_call_def split_name_bare)

lemma build_leaf_fetches:
  assumes "n \<notin> visited s" and "view_text cat n = []"
    and "build_full_lineage ord cat n s = Inr s'"
  shows "fetches s' = fetches s @ [ViewFetch n, table_call n]"
proof -
  have conn: "view_outcome cat n \<noteq> VNoConnection"
    using assms(1,3) by (auto simp: build_stop)
  then have r: "resolve_table cat n (entered cat n s) = Inr s'"
    using assms by (simp add: build_leaf)
  then have "table_connects cat n"
    using resolve_table_stop [of cat n "entered cat n s"] by auto
  from resolve_table_eq [OF this, of "entered cat n s"] r show ?thesis
    by (auto simp: entered_def)
qed

text \<open>
  A catalog with one base table, \<^verbatim>\<open>dbc.orders\<close>, and no view.
\<close>

definition orders_catalog :: catalog where
  "orders_catalog =
     \<lparr>view_rows = [],
      table_rows =
        [((''dbc'', ''orders''),
          TRows [\<lparr>ColumnName = ''id'', ColumnFormat = None, ColumnType = ''I'',
                   ColumnLength = 4, Nullable = ''N'', CompressValueList = None\<rparr>])]\<rparr>"

text \<open>
  Claim C7. When a name that has not been visited has no truthy view definition, the
  builder goes on to \<^verbatim>\<open>fetch_table_metadata\<close>: for a bare name with the schema
  \<^verbatim>\<open>"dbc"\<close> and the name itself as the table, for a dotted name with the two parts of
  the split at the first dot.
\<close>

theorem bare_name_falls_back_to_dbc:
  assumes "n \<notin> visited s" and "view_text cat n = []"
    and "build_full_lineage ord cat n s = Inr s'"
  shows "(CHR ''.'' \<notin> set n \<longrightarrow>
            fetches s' = fetches s @ [ViewFetch n, TableFetch ''dbc'' n])
       \<and> (CHR ''.'' \<in> set n \<longrightarrow>
            (\<exists>db tbl. n = db @ ''.'' @ tbl \<and> CHR ''.'' \<notin> set db
               \<and> fetches s' = fetches s @ [ViewFetch n, TableFetch db tbl]))"
proof (intro conjI impI)
  assume "CHR ''.'' \<notin> set n"
  then show "fetches s' = fetches s @ [ViewFetch n, TableFetch ''dbc'' n]"
    using build_leaf_fetches [OF assms] by (simp add: table_call_bare)
next
  assume d: "CHR ''.'' \<in> set n"
  let ?db = "takeWhile (\<lambda>c. c \<noteq> CHR ''.'') n"
  let ?tbl = "tl (dropWhile (\<lambda>c. c \<noteq> CHR ''.'') n)"
  have "n = ?db @ dropWhile (\<lambda>c. c \<noteq> CHR ''.'') n" by simp
  also have "dropWhile (\<lambda>c. c \<noteq> CHR ''.'') n = CHR ''.'' # ?tbl"
    using d by (rule dropWhile_neq_hd)
  finally have "n = ?db @ ''.'' @ ?tbl" by simp
  moreover have "CHR ''.'' \<notin> set ?db" by (auto dest: set_takeWhileD)
  moreover have "fetches s' = fetches s @ [ViewFetch n, TableFetch ?db ?tbl]"
    using build_leaf_fetches [OF assms] d by (simp add: table_call_def split_name_dotted)
  ultimately show "\<exists>db tbl. n = db @ ''.'' @ tbl \<and> CHR ''.'' \<notin> set db
               \<and> fetches s' = fetches s @ [ViewFetch n, TableFetch db tbl]"
    by blast
qed

theorem bare_name_falls_back_to_dbc_witness:
  "\<exists>s'. build_full_lineage (\<lambda>_ _. 0) orders_catalog ''orders'' initial_state = Inr s'
      \<and> fetches s' = [ViewFetch ''orders'', TableFetch ''dbc'' ''orders'']"
proof -
  have nv: "''orders'' \<notin> visited initial_state"
    by (simp add: initial_state_def)
  have vt: "view_text orders_catalog ''orders'' = []"
    by (simp add: view_text_def view_outcome_def orders_catalog_def)
  have vo: "view_outcome orders_catalog ''orders'' \<noteq> VNoConnection"
    by (simp add: view_outcome_def orders_catalog_def)
  have tc: "table_connects orders_catalog ''orders''"
    by (simp add: table_connects_def split_name_def table_outcome_def orders_catalog_def)
  obtain s' where
    b: "build_full_lineage (\<lambda>_ _. 0) orders_catalog ''orders'' initial_state = Inr s'"
    using nv vt vo tc by (simp add: build_leaf resolve_table_eq)
  from bare_name_falls_back_to_dbc [OF nv vt b] show ?thesis
    using b by (simp add: initial_state_def)
qed

section \<open>The records of the names that were resolved\<close>

lemma map_of_dict_set: "map_of (dict_set kvs k v) = (map_of kvs)(k \<mapsto> v)"
  by (induction kvs k v rule: dict_set.induct) auto

lemma keys_dict_set: "fst ` set (dict_set kvs k v) = insert k (fst ` set kvs)"
  by (induction kvs k v rule: dict_set.induct) auto

lemma dict_set_fresh: "k \<notin> fst ` set kvs \<Longrightarrow> dict_set kvs k v = kvs @ [(k, v)]"
  by (induction kvs k v rule: dict_set.induct) auto

definition records_ok :: "catalog \<Rightarrow> lineage_state \<Rightarrow> bool" where
  "records_ok cat s \<longleftrightarrow>
     (\<forall>n. map_of (ddl_dict s) n =
            (if n \<in> visited s \<and> view_text cat n \<noteq> [] then Some (view_text cat n) else None))
   \<and> (\<forall>n. map_of (table_metadata_dict s) n =
            (if n \<in> visited s \<and> view_text cat n = [] \<and> table_columns cat n \<noteq> []
             then Some (table_columns cat n) else None))"

lemma records_ok_initial: "records_ok cat initial_state"
  by (simp add: records_ok_def initial_state_def)

lemma records_ok_add_edge:
  "records_ok cat (s\<lparr>graph := g\<rparr>) = records_ok cat s"
  by (simp add: records_ok_def)

lemma records_ok_view:
  assumes "records_ok cat s" and "n \<notin> visited s" and "view_text cat n \<noteq> []"
  shows "records_ok cat ((entered cat n s)\<lparr>ddl_dict := dict_set (ddl_dict s) n (view_text cat n)\<rparr>)"
  using assms by (auto simp: records_ok_def entered_def map_of_dict_set)

lemma records_ok_leaf:
  assumes "records_ok cat s" and "n \<notin> visited s" and "view_text cat n = []"
    and "resolve_table cat n (entered cat n s) = Inr s'"
  shows "records_ok cat s'"
proof -
  have "table_connects cat n"
    using assms(4) resolve_table_stop [of cat n "entered cat n s"] by auto
  from resolve_table_eq [OF this, of "entered cat n s"] assms show ?thesis
    by (auto simp: records_ok_def entered_def map_of_dict_set)
qed

lemma records_ok_preserved:
  "records_ok cat s \<Longrightarrow> build_full_lineage ord cat n s = Inr s' \<Longrightarrow> records_ok cat s'"
  "records_ok cat s \<Longrightarrow> for_dependencies ord cat n ds s = Inr s' \<Longrightarrow> records_ok cat s'"
proof (induction n s and n ds s arbitrary: s' and s' rule: build_induct [of _ cat _ ord])
  case (visited n s)
  then show ?case by (simp add: build_visited)
next
  case (stop n s)
  then show ?case by (simp add: build_stop)
next
  case (view n s)
  from view.prems(2) view.hyps have
    "for_dependencies ord cat n (extract_dependencies ord (view_text cat n))
       ((entered cat n s)\<lparr>ddl_dict := dict_set (ddl_dict s) n (view_text cat n)\<rparr>) = Inr s'"
    by (simp add: build_view)
  with view.IH records_ok_view [OF view.prems(1) view.hyps(1,3)] show ?case by blast
next
  case (leaf n s)
  from leaf.prems(2) leaf.hyps have "resolve_table cat n (entered cat n s) = Inr s'"
    by (simp add: build_leaf)
  from records_ok_leaf [OF leaf.prems(1) leaf.hyps(1,3) this] show ?case .
next
  case (nil n s)
  then show ?case by simp
next
  case (cons n d ds s)
  from cons.prems(2) obtain s1 where
    b: "build_full_lineage ord cat d (s\<lparr>graph := add_edge (graph s) d n\<rparr>) = Inr s1"
    and f: "for_dependencies ord cat n ds s1 = Inr s'"
    by (auto split: sum.splits)
  have "records_ok cat (s\<lparr>graph := add_edge (graph s) d n\<rparr>)"
    using cons.prems(1) by (simp add: records_ok_add_edge)
  from cons.IH(1) [OF this b] have "records_ok cat s1" .
  from cons.IH(2) [OF b this f] show ?case .
qed

section \<open>Properties kept by every step\<close>

lemma set_extract_dependencies:
  "set (extract_dependencies ord sql) = set (dependency_set sql)"
  by (simp add: extract_dependencies_def list_of_set_def)

definition resolved :: "catalog \<Rightarrow> string \<Rightarrow> lineage_state \<Rightarrow> lineage_state" where
  "resolved cat n s =
     s\<lparr>fetches := fetches s @ [table_call n],
       errors := errors s @ table_errors cat n,
       table_metadata_dict :=
         (if table_columns cat n \<noteq> []
          then dict_set (table_metadata_dict s) n (table_columns cat n)
          else table_metadata_dict s)\<rparr>"

lemma resolve_table_resolved:
  "table_connects cat n \<Longrightarrow> resolve_table cat n s = Inr (resolved cat n s)"
  by (simp add: resolve_table_eq resolved_def)

lemma build_leaf_cases:
  assumes "n \<notin> visited s" and "view_outcome cat n \<noteq> VNoConnection" and "view_text cat n = []"
    and "build_full_lineage ord cat n s = Inr s'"
  shows "table_connects cat n \<and> s' = resolved cat n (entered cat n s)"
proof -
  from assms have r: "resolve_table cat n (entered cat n s) = Inr s'"
    by (simp add: build_leaf)
  then have c: "table_connects cat n"
    using resolve_table_stop [of cat n "entered cat n s"] by auto
  with r show ?thesis by (simp add: resolve_table_resolved)
qed

lemma visited_grows:
  "build_full_lineage ord cat n s = Inr s' \<Longrightarrow> visited s \<subseteq> visited s' \<and> n \<in> visited s'"
  "for_dependencies ord cat n ds s = Inr s' \<Longrightarrow> visited s \<subseteq> visited s' \<and> set ds \<subseteq> visited s'"
proof (induction n s and n ds s arbitrary: s' and s' rule: build_induct [of _ cat _ ord])
  case (visited n s)
  then show ?case by (simp add: build_visited)
next
  case (stop n s)
  then show ?case by (simp add: build_stop)
next
  case (view n s)
  from view.prems view.hyps have
    "for_dependencies ord cat n (extract_dependencies ord (view_text cat n))
       ((entered cat n s)\<lparr>ddl_dict := dict_set (ddl_dict s) n (view_text cat n)\<rparr>) = Inr s'"
    by (simp add: build_view)
  from view.IH [OF this] show ?case by (auto simp: entered_def)
next
  case (leaf n s)
  from build_leaf_cases [OF leaf.hyps leaf.prems] show ?case
    by (auto simp: resolved_def entered_def)
next
  case (nil n s)
  then show ?case by simp
next
  case (cons n d ds s)
  from cons.prems obtain s1 where
    b: "build_full_lineage ord cat d (s\<lparr>graph := add_edge (graph s) d n\<rparr>) = Inr s1"
    and f: "for_dependencies ord cat n ds s1 = Inr s'"
    by (auto split: sum.splits)
  from cons.IH(1) [OF b] cons.IH(2) [OF b f] show ?case by auto
qed

text \<open>
  A property of the state that every step of the traversal keeps is kept by the whole
  traversal. The steps: an edge from a dependency of a visited view to that view; a view
  entered and its definition recorded; a name without definition resolved as a table
  candidate.
\<close>

lemma invariant_preserved:
  assumes edge: "\<And>s d n. I s \<Longrightarrow> n \<in> visited s \<Longrightarrow> view_text cat n \<noteq> [] \<Longrightarrow>
                   d \<in> set (dependency_set (view_text cat n)) \<Longrightarrow>
                   I (s\<lparr>graph := add_edge (graph s) d n\<rparr>)"
    and view: "\<And>s n. I s \<Longrightarrow> n \<notin> visited s \<Longrightarrow> view_outcome cat n \<noteq> VNoConnection \<Longrightarrow>
                   view_text cat n \<noteq> [] \<Longrightarrow>
                   I ((entered cat n s)\<lparr>ddl_dict := dict_set (ddl_dict s) n (view_text cat n)\<rparr>)"
    and leaf: "\<And>s n. I s \<Longrightarrow> n \<notin> visited s \<Longrightarrow> view_outcome cat n \<noteq> VNoConnection \<Longrightarrow>
                   view_text cat n = [] \<Longrightarrow> table_connects cat n \<Longrightarrow>
                   I (resolved cat n (entered cat n s))"
  shows "I s \<Longrightarrow> build_full_lineage ord cat n s = Inr s' \<Longrightarrow> I s'"
    and "I s \<Longrightarrow> n \<in> visited s \<Longrightarrow> view_text cat n \<noteq> [] \<Longrightarrow>
         set ds \<subseteq> set (dependency_set (view_text cat n)) \<Longrightarrow>
         for_dependencies ord cat n ds s = Inr s' \<Longrightarrow> I s'"
proof (induction n s and n ds s arbitrary: s' and s' rule: build_induct [of _ cat _ ord])
  case (visited n s)
  then show ?case by (simp add: build_visited)
next
  case (stop n s)
  then show ?case by (simp add: build_stop)
next
  case (view n s)
  let ?s1 = "(entered cat n s)\<lparr>ddl_dict := dict_set (ddl_dict s) n (view_text cat n)\<rparr>"
  from view.prems view.hyps have
    f: "for_dependencies ord cat n (extract_dependencies ord (view_text cat n)) ?s1 = Inr s'"
    by (simp add: build_view)
  have i1: "I ?s1" using view.prems(1) view.hyps by (rule assms(2))
  have v1: "n \<in> visited ?s1" by (simp add: entered_def)
  have sub: "set (extract_dependencies ord (view_text cat n))
               \<subseteq> set (dependency_set (view_text cat n))"
    by (simp add: set_extract_dependencies)
  show ?case by (rule view.IH [OF i1 v1 view.hyps(3) sub f])
next
  case (leaf n s)
  from build_leaf_cases [OF leaf.hyps leaf.prems(2)] assms(3) [OF leaf.prems(1) leaf.hyps]
  show ?case by simp
next
  case (nil n s)
  then show ?case by simp
next
  case (cons n d ds s)
  from cons.prems(5) obtain s1 where
    b: "build_full_lineage ord cat d (s\<lparr>graph := add_edge (graph s) d n\<rparr>) = Inr s1"
    and f: "for_dependencies ord cat n ds s1 = Inr s'"
    by (auto split: sum.splits)
  have "d \<in> set (dependency_set (view_text cat n))"
    using cons.prems(4) by simp
  with cons.prems(1-3) have "I (s\<lparr>graph := add_edge (graph s) d n\<rparr>)"
    by (rule assms(1))
  from cons.IH(1) [OF this b] have i1: "I s1" .
  have v1: "n \<in> visited s1"
    using visited_grows(1) [OF b] cons.prems(2) by auto
  have sub: "set ds \<subseteq> set (dependency_set (view_text cat n))"
    using cons.prems(4) by simp
  show ?case by (rule cons.IH(2) [OF b i1 v1 cons.prems(3) sub f])
qed

lemma distinct_dict_set:
  "distinct (map fst kvs) \<Longrightarrow> distinct (map fst (dict_set kvs k v))"
proof (induction kvs k v rule: dict_set.induct)
  case (1 k v)
  then show ?case by simp
next
  case (2 k' v' kvs k v)
  have "set (map fst (dict_set kvs k v)) = insert k (fst ` set kvs)"
    using keys_dict_set [of kvs k v] by simp
  with 2 show ?case by auto
qed

lemma distinct_keys_entry:
  "distinct (map fst kvs) \<Longrightarrow> map_of kvs k = Some v \<Longrightarrow>
     filter (\<lambda>kv. fst kv = k) kvs = [(k, v)]"
proof (induction kvs)
  case Nil
  then show ?case by simp
next
  case (Cons kv kvs)
  show ?case
  proof (cases "fst kv = k")
    case True
    with Cons.prems have "\<forall>x \<in> set kvs. fst x \<noteq> k" by (force simp: image_iff)
    then have "filter (\<lambda>kv. fst kv = k) kvs = []" by (simp add: filter_empty_conv)
    with True Cons.prems show ?thesis by (cases kv) auto
  next
    case False
    with Cons show ?thesis by (cases kv) auto
  qed
qed

definition keys_distinct :: "lineage_state \<Rightarrow> bool" where
  "keys_distinct s \<longleftrightarrow>
     distinct (map fst (ddl_dict s)) \<and> distinct (map fst (table_metadata_dict s))"

lemma keys_distinct_preserved:
  "keys_distinct s \<Longrightarrow> build_full_lineage ord cat n s = Inr s' \<Longrightarrow> keys_distinct s'"
  by (erule invariant_preserved(1) [where I = keys_distinct, rotated 3])
     (auto simp: keys_distinct_def entered_def resolved_def distinct_dict_set)

lemma deps_visited:
  "build_full_lineage ord cat n s = Inr s' \<Longrightarrow>
     \<forall>m \<in> visited s' - visited s. set (dependency_set (view_text cat m)) \<subseteq> visited s'
        \<or> view_text cat m = []"
  "for_dependencies ord cat n ds s = Inr s' \<Longrightarrow>
     \<forall>m \<in> visited s' - visited s. set (dependency_set (view_text cat m)) \<subseteq> visited s'
        \<or> view_text cat m = []"
proof (induction n s and n ds s arbitrary: s' and s' rule: build_induct [of _ cat _ ord])
  case (visited n s)
  then show ?case by (simp add: build_visited)
next
  case (stop n s)
  then show ?case by (simp add: build_stop)
next
  case (view n s)
  let ?s1 = "(entered cat n s)\<lparr>ddl_dict := dict_set (ddl_dict s) n (view_text cat n)\<rparr>"
  from view.prems view.hyps have
    f: "for_dependencies ord cat n (extract_dependencies ord (view_text cat n)) ?s1 = Inr s'"
    by (simp add: build_view)
  have v1: "visited ?s1 = insert n (visited s)" by (simp add: entered_def)
  have "set (dependency_set (view_text cat n)) \<subseteq> visited s'"
    using visited_grows(2) [OF f] by (simp add: set_extract_dependencies)
  with view.IH [OF f] v1 show ?case by auto
next
  case (leaf n s)
  from build_leaf_cases [OF leaf.hyps leaf.prems] leaf.hyps(3) show ?case
    by (auto simp: resolved_def entered_def)
next
  case (nil n s)
  then show ?case by simp
next
  case (cons n d ds s)
  from cons.prems obtain s1 where
    b: "build_full_lineage ord cat d (s\<lparr>graph := add_edge (graph s) d n\<rparr>) = Inr s1"
    and f: "for_dependencies ord cat n ds s1 = Inr s'"
    by (auto split: sum.splits)
  have g: "visited s1 \<subseteq> visited s'" using visited_grows(2) [OF f] by simp
  from cons.IH(1) [OF b] cons.IH(2) [OF b f] g show ?case
    by simp blast
qed

text \<open>
  No fetch of the catalog fails to obtain its connection.
\<close>

definition all_connect :: "catalog \<Rightarrow> bool" where
  "all_connect cat \<longleftrightarrow>
     VNoConnection \<notin> snd ` set (view_rows cat) \<and> TNoConnection \<notin> snd ` set (table_rows cat)"

lemma all_connect_view: "all_connect cat \<Longrightarrow> view_outcome cat n \<noteq> VNoConnection"
  by (auto simp: all_connect_def view_outcome_def split: option.splits
           dest!: map_of_SomeD intro: rev_image_eqI)

lemma all_connect_table: "all_connect cat \<Longrightarrow> table_connects cat n"
  using split_name_total [of n]
  by (auto simp: all_connect_def table_connects_def table_outcome_def split: option.splits
           dest!: map_of_SomeD intro: rev_image_eqI)

lemma build_returns:
  "all_connect cat \<Longrightarrow> \<exists>s'. build_full_lineage ord cat n s = Inr s'"
  "all_connect cat \<Longrightarrow> \<exists>s'. for_dependencies ord cat n ds s = Inr s'"
proof (induction n s and n ds s rule: build_induct [of _ cat _ ord])
  case (visited n s)
  then show ?case by (simp add: build_visited)
next
  case (stop n s)
  then show ?case using all_connect_view by blast
next
  case (view n s)
  then show ?case by (simp add: build_view)
next
  case (leaf n s)
  then show ?case by (simp add: build_leaf resolve_table_resolved all_connect_table)
next
  case (nil n s)
  then show ?case by simp
next
  case (cons n d ds s)
  from cons.IH(1) [OF cons.prems] obtain s1 where
    b: "build_full_lineage ord cat d (s\<lparr>graph := add_edge (graph s) d n\<rparr>) = Inr s1" by blast
  from cons.IH(2) [OF b cons.prems] b show ?case by simp
qed

section \<open>Fallback to a table\<close>

lemma generate_lineage_records:
  assumes "generate_lineage ord cat root = Inr s"
  shows "records_ok cat s" and "keys_distinct s"
  using assms records_ok_preserved(1) [OF records_ok_initial, of ord cat root s]
    keys_distinct_preserved [of initial_state ord cat root s]
  by (simp_all add: generate_lineage_def keys_distinct_def initial_state_def)

text \<open>
  A catalog with one base table of three columns, \<^verbatim>\<open>sales.orders\<close>, and no view.
\<close>

definition sales_columns :: "column_meta list" where
  "sales_columns =
     [\<lparr>ColumnName = ''id'', ColumnFormat = None, ColumnType = ''I'',
        ColumnLength = 4, Nullable = ''N'', CompressValueList = None\<rparr>,
      \<lparr>ColumnName = ''customer'', ColumnFormat = Some ''X(30)'', ColumnType = ''CV'',
        ColumnLength = 30, Nullable = ''Y'', CompressValueList = None\<rparr>,
      \<lparr>ColumnName = ''total'', ColumnFormat = None, ColumnType = ''D'',
        ColumnLength = 8, Nullable = ''Y'', CompressValueList = None\<rparr>]"

definition sales_catalog :: catalog where
  "sales_catalog = \<lparr>view_rows = [], table_rows = [((''sales'', ''orders''), TRows sales_columns)]\<rparr>"

text \<open>
  Claim C6. At the end of a request, a name that was resolved, has no truthy view
  definition and has column metadata is recorded once in \<^verbatim>\<open>table_metadata_dict\<close>, with
  exactly those columns, and is no key of \<^verbatim>\<open>ddl_dict\<close>; no name is a key of both
  dictionaries.
\<close>

theorem table_fallback_recorded:
  assumes "generate_lineage ord cat root = Inr s"
    and "n \<in> visited s" and "view_text cat n = []" and "table_columns cat n \<noteq> []"
  shows "filter (\<lambda>kv. fst kv = n) (table_metadata_dict s) = [(n, table_columns cat n)]
       \<and> n \<notin> fst ` set (ddl_dict s)
       \<and> fst ` set (ddl_dict s) \<inter> fst ` set (table_metadata_dict s) = {}"
proof -
  note ok = generate_lineage_records [OF assms(1)]
  have "map_of (table_metadata_dict s) n = Some (table_columns cat n)"
    using ok(1) assms(2-4) by (simp add: records_ok_def)
  then have a: "filter (\<lambda>kv. fst kv = n) (table_metadata_dict s) = [(n, table_columns cat n)]"
    using ok(2) by (intro distinct_keys_entry) (simp_all add: keys_distinct_def)
  have "map_of (ddl_dict s) n = None"
    using ok(1) assms(3) by (simp add: records_ok_def)
  then have b: "n \<notin> fst ` set (ddl_dict s)"
    by (simp add: map_of_eq_None_iff)
  have c: "fst ` set (ddl_dict s) \<inter> fst ` set (table_metadata_dict s) = {}"
  proof (rule ccontr)
    assume "fst ` set (ddl_dict s) \<inter> fst ` set (table_metadata_dict s) \<noteq> {}"
    then obtain k where "k \<in> fst ` set (ddl_dict s)" and "k \<in> fst ` set (table_metadata_dict s)"
      by blast
    then have "map_of (ddl_dict s) k \<noteq> None" and "map_of (table_metadata_dict s) k \<noteq> None"
      by (simp_all add: map_of_eq_None_iff)
    with ok(1) show False
      by (auto simp: records_ok_def split: if_splits)
  qed
  from a b c show ?thesis by simp
qed

theorem table_fallback_recorded_witness:
  "\<exists>s. generate_lineage (\<lambda>_ _. 0) sales_catalog ''sales.orders'' = Inr s
     \<and> ''sales.orders'' \<in> visited s
     \<and> filter (\<lambda>kv. fst kv = ''sales.orders'') (table_metadata_dict s)
         = [(''sales.orders'', sales_columns)]
     \<and> length sales_columns = 3
     \<and> ''sales.orders'' \<notin> fst ` set (ddl_dict s)"
proof -
  have "all_connect sales_catalog"
    by (simp add: all_connect_def sales_catalog_def)
  from build_returns(1) [OF this] obtain s where
    g: "generate_lineage (\<lambda>_ _. 0) sales_catalog ''sales.orders'' = Inr s"
    unfolding generate_lineage_def by blast
  have v: "''sales.orders'' \<in> visited s"
    using visited_grows(1) g unfolding generate_lineage_def by blast
  have t: "view_text sales_catalog ''sales.orders'' = []"
    by (simp add: view_text_def view_outcome_def sales_catalog_def)
  have c: "table_columns sales_catalog ''sales.orders'' = sales_columns"
    by (simp add: table_columns_def split_name_def split_once_def table_outcome_def
          sales_catalog_def)
  have ne: "table_columns sales_catalog ''sales.orders'' \<noteq> []"
    unfolding c by (simp add: sales_columns_def)
  from table_fallback_recorded [OF g v t ne] g v show ?thesis
    by (auto simp: c sales_columns_def)
qed

section \<open>Dangling references\<close>

text \<open>
  A dangling reference: both fetches for the name return, the first without a truthy
  definition, the second without rows.
\<close>

definition dangling :: "catalog \<Rightarrow> string \<Rightarrow> bool" where
  "dangling cat n \<longleftrightarrow>
     view_outcome cat n \<noteq> VNoConnection \<and> view_text cat n = []
     \<and> table_connects cat n \<and> table_columns cat n = []"

text \<open>
  A catalog with a view \<^verbatim>\<open>v\<close> over the base table \<^verbatim>\<open>sales.orders\<close> and over
  \<^verbatim>\<open>ghost\<close>, which the catalog does not know.
\<close>

definition ghost_catalog :: catalog where
  "ghost_catalog =
     \<lparr>view_rows = [(''v'', VRow (Some ''SELECT * FROM ghost JOIN sales.orders ON 1 = 1''))],
      table_rows = [((''sales'', ''orders''), TRows sales_columns)]\<rparr>"

text \<open>
  Claim C9. Resolving a dangling name returns, with the name marked as visited and the
  graph and both dictionaries as they were; at the end of a request a dangling name is a
  key of neither dictionary, while the dictionaries hold what the catalog answers for
  the other names that were visited; and the request returns whenever the fetches obtain
  their connection.
\<close>

theorem dangling_reference_dropped:
  assumes "dangling cat n"
  shows "(n \<notin> visited s0 \<longrightarrow>
            (\<exists>s1. build_full_lineage ord cat n s0 = Inr s1
               \<and> visited s1 = insert n (visited s0) \<and> graph s1 = graph s0
               \<and> ddl_dict s1 = ddl_dict s0
               \<and> table_metadata_dict s1 = table_metadata_dict s0))
       \<and> (\<forall>s. generate_lineage ord cat root = Inr s \<longrightarrow>
              n \<notin> fst ` set (ddl_dict s) \<and> n \<notin> fst ` set (table_metadata_dict s)
              \<and> records_ok cat s)
       \<and> (all_connect cat \<longrightarrow> (\<exists>s. generate_lineage ord cat root = Inr s))"
proof (intro conjI impI allI)
  assume nv: "n \<notin> visited s0"
  have "build_full_lineage ord cat n s0 = Inr (resolved cat n (entered cat n s0))"
    using assms nv by (simp add: dangling_def build_leaf resolve_table_resolved)
  moreover have "table_columns cat n = []" using assms by (simp add: dangling_def)
  ultimately show "\<exists>s1. build_full_lineage ord cat n s0 = Inr s1
               \<and> visited s1 = insert n (visited s0) \<and> graph s1 = graph s0
               \<and> ddl_dict s1 = ddl_dict s0
               \<and> table_metadata_dict s1 = table_metadata_dict s0"
    by (simp add: resolved_def entered_def)
next
  fix s assume g: "generate_lineage ord cat root = Inr s"
  note ok = generate_lineage_records(1) [OF g]
  from assms have "map_of (ddl_dict s) n = None" and "map_of (table_metadata_dict s) n = None"
    using ok by (simp_all add: records_ok_def dangling_def)
  then show "n \<notin> fst ` set (ddl_dict s)" and "n \<notin> fst ` set (table_metadata_dict s)"
    by (simp_all add: map_of_eq_None_iff)
  show "records_ok cat s" by (rule ok)
next
  assume "all_connect cat"
  then show "\<exists>s. generate_lineage ord cat root = Inr s"
    unfolding generate_lineage_def by (rule build_returns(1))
qed

lemma generate_lineage_closed:
  assumes "generate_lineage ord cat root = Inr s" and "m \<in> visited s"
    and "view_text cat m \<noteq> []"
  shows "set (dependency_set (view_text cat m)) \<subseteq> visited s"
  using deps_visited(1) [of ord cat root initial_state s] assms
  by (auto simp: generate_lineage_def initial_state_def)

lemma generate_lineage_root:
  "generate_lineage ord cat root = Inr s \<Longrightarrow> root \<in> visited s"
  using visited_grows(1) [of ord cat root initial_state s] by (simp add: generate_lineage_def)

theorem dangling_reference_dropped_witness:
  "dangling ghost_catalog ''ghost''
   \<and> (\<exists>s. generate_lineage (\<lambda>_ _. 0) ghost_catalog ''v'' = Inr s
         \<and> ''ghost'' \<in> visited s
         \<and> ''ghost'' \<notin> fst ` set (ddl_dict s)
         \<and> ''ghost'' \<notin> fst ` set (table_metadata_dict s)
         \<and> map_of (ddl_dict s) ''v'' = Some ''SELECT * FROM ghost JOIN sales.orders ON 1 = 1''
         \<and> map_of (table_metadata_dict s) ''sales.orders'' = Some sales_columns)"
proof -
  have d: "dangling ghost_catalog ''ghost''"
    by (simp add: dangling_def view_outcome_def view_text_def table_connects_def
          table_columns_def split_name_def table_outcome_def ghost_catalog_def)
  have c: "all_connect ghost_catalog"
    by (simp add: all_connect_def ghost_catalog_def)
  note inst = dangling_reference_dropped [OF d, of initial_state "\<lambda>_ _. 0" "''v''"]
  from inst c obtain s where g: "generate_lineage (\<lambda>_ _. 0) ghost_catalog ''v'' = Inr s"
    by blast
  from inst g have dropped: "''ghost'' \<notin> fst ` set (ddl_dict s)"
      "''ghost'' \<notin> fst ` set (table_metadata_dict s)" and ok: "records_ok ghost_catalog s"
    by blast+
  have vt: "view_text ghost_catalog ''v'' = ''SELECT * FROM ghost JOIN sales.orders ON 1 = 1''"
    by (simp add: view_text_def view_outcome_def ghost_catalog_def)
  have ds: "dependency_set ''SELECT * FROM ghost JOIN sales.orders ON 1 = 1''
              = [''ghost'', ''sales.orders'']"
    by code_simp
  have v: "''v'' \<in> visited s" using g by (rule generate_lineage_root)
  have "set (dependency_set (view_text ghost_catalog ''v'')) \<subseteq> visited s"
    using g v by (rule generate_lineage_closed) (simp add: vt)
  then have vs: "''ghost'' \<in> visited s" "''sales.orders'' \<in> visited s"
    by (simp_all add: vt ds)
  have t: "view_text ghost_catalog ''sales.orders'' = []"
    "table_columns ghost_catalog ''sales.orders'' = sales_columns"
    by (simp_all add: view_text_def view_outcome_def table_columns_def split_name_def
          split_once_def table_outcome_def ghost_catalog_def)
  have "map_of (ddl_dict s) ''v'' = Some ''SELECT * FROM ghost JOIN sales.orders ON 1 = 1''"
    using ok v by (simp add: records_ok_def vt)
  moreover have "map_of (table_metadata_dict s) ''sales.orders'' = Some sales_columns"
    using ok vs(2) t by (simp add: records_ok_def sales_columns_def)
  ultimately show ?thesis using d g vs(1) dropped by blast
qed

section \<open>Failing fetches\<close>

definition errors_reported :: "catalog \<Rightarrow> lineage_state \<Rightarrow> bool" where
  "errors_reported cat s \<longleftrightarrow>
     (\<forall>n \<in> visited s. set (view_errors cat n) \<subseteq> set (errors s)
        \<and> (view_text cat n = [] \<longrightarrow> set (table_errors cat n) \<subseteq> set (errors s)))"

lemma errors_reported_preserved:
  "errors_reported cat s \<Longrightarrow> build_full_lineage ord cat n s = Inr s' \<Longrightarrow> errors_reported cat s'"
  by (erule invariant_preserved(1) [where I = "errors_reported cat", rotated 3])
     (auto simp: errors_reported_def entered_def resolved_def)

text \<open>
  A catalog with a view \<^verbatim>\<open>v\<close> over \<^verbatim>\<open>a\<close> and \<^verbatim>\<open>b\<close> where no connection is
  obtained when the definition of \<^verbatim>\<open>a\<close> is fetched.
\<close>

definition offline_catalog :: catalog where
  "offline_catalog =
     \<lparr>view_rows = [(''v'', VRow (Some ''SELECT * FROM a JOIN b ON 1 = 1'')),
                   (''a'', VNoConnection)],
      table_rows = [((''dbc'', ''b''), TRows sales_columns)]\<rparr>"

text \<open>
  The same views, where the query for the definition of \<^verbatim>\<open>a\<close> raises instead.
\<close>

definition flaky_catalog :: catalog where
  "flaky_catalog =
     \<lparr>view_rows = [(''v'', VRow (Some ''SELECT * FROM a JOIN b ON 1 = 1'')),
                   (''a'', VRaises ''timeout'')],
      table_rows = [((''dbc'', ''b''), TRows sales_columns)]\<rparr>"

text \<open>
  Claim C3, as stated, fails: when no connection is obtained for \<^verbatim>\<open>a\<close>, the fetch
  calls \<^verbatim>\<open>st.stop()\<close> and the request halts; the caller receives nothing, and
  \<^verbatim>\<open>b\<close>, queued after \<^verbatim>\<open>a\<close>, is never resolved.
\<close>

theorem connection_failure_halts:
  "generate_lineage (\<lambda>_ _. 0) offline_catalog ''v'' = Inl StopException"
proof -
  have ds: "extract_dependencies (\<lambda>_ _. 0) ''SELECT * FROM a JOIN b ON 1 = 1'' = [''a'', ''b'']"
    by code_simp
  have v: "view_outcome offline_catalog ''v'' \<noteq> VNoConnection"
    "view_text offline_catalog ''v'' = ''SELECT * FROM a JOIN b ON 1 = 1''"
    "view_outcome offline_catalog ''a'' = VNoConnection"
    by (simp_all add: view_outcome_def view_text_def offline_catalog_def)
  show ?thesis
    unfolding generate_lineage_def
    by (simp add: build_view build_stop v ds initial_state_def entered_def)
qed


section \<open>Cycles\<close>

lemma count_list_distinct:
  "distinct xs \<Longrightarrow> x \<in> set xs \<Longrightarrow> count_list xs x = 1"
  by (induction xs) auto

lemma table_call_not_view: "table_call n \<noteq> ViewFetch m"
  using split_name_total [of n] by (auto simp: table_call_def)

definition fetched_once :: "lineage_state \<Rightarrow> bool" where
  "fetched_once s \<longleftrightarrow>
     (\<forall>n. count_list (fetches s) (ViewFetch n) = (if n \<in> visited s then 1 else 0))"

lemma fetched_once_preserved:
  "fetched_once s \<Longrightarrow> build_full_lineage ord cat n s = Inr s' \<Longrightarrow> fetched_once s'"
  by (erule invariant_preserved(1) [where I = fetched_once, rotated 3])
     (auto simp: fetched_once_def entered_def resolved_def table_call_not_view)

lemma generate_lineage_fetched_once:
  "generate_lineage ord cat root = Inr s \<Longrightarrow> fetched_once s"
  unfolding generate_lineage_def
  by (erule fetched_once_preserved [rotated]) (simp add: fetched_once_def initial_state_def)

lemma resolve_table_not_value_error: "resolve_table cat n s \<noteq> Inl ValueError"
  using resolve_table_stop [of cat n s] resolve_table_resolved [of cat n s]
  by (cases "table_connects cat n") auto

lemma build_halts_only_by_stop:
  "build_full_lineage ord cat n s = Inl h \<Longrightarrow> h = StopException \<and> \<not> all_connect cat"
  "for_dependencies ord cat n ds s = Inl h \<Longrightarrow> h = StopException \<and> \<not> all_connect cat"
proof -
  have a: "\<not> all_connect cat" if "build_full_lineage ord cat n s = Inl h" for n s and h :: halt
    using that build_returns(1) [of cat ord n s] by auto
  have b: "\<not> all_connect cat" if "for_dependencies ord cat n ds s = Inl h" for n ds s and h :: halt
    using that build_returns(2) [of cat ord n ds s] by auto
  have "build_full_lineage ord cat n s = Inl h \<Longrightarrow> h = StopException"
    and "for_dependencies ord cat n ds s = Inl h \<Longrightarrow> h = StopException"
  proof (induction n s and n ds s rule: build_induct [of _ cat _ ord])
    case (visited n s)
    then show ?case by (simp add: build_visited)
  next
    case (stop n s)
    then show ?case by (simp add: build_stop)
  next
    case (view n s)
    then show ?case by (simp add: build_view)
  next
    case (leaf n s)
    then show ?case
      using resolve_table_stop [of cat n "entered cat n s"]
        resolve_table_resolved [of cat n "entered cat n s"]
      by (cases "table_connects cat n") (auto simp: build_leaf)
  next
    case (nil n s)
    then show ?case by simp
  next
    case (cons n d ds s)
    then show ?case by (auto split: sum.splits)
  qed
  then show "build_full_lineage ord cat n s = Inl h \<Longrightarrow> h = StopException \<and> \<not> all_connect cat"
    and "for_dependencies ord cat n ds s = Inl h \<Longrightarrow> h = StopException \<and> \<not> all_connect cat"
    using a b by blast+
qed

text \<open>A catalog with two views that reference each other.\<close>

definition cycle_catalog :: catalog where
  "cycle_catalog =
     \<lparr>view_rows = [(''a'', VRow (Some ''SELECT * FROM b'')),
                   (''b'', VRow (Some ''SELECT x FROM a''))],
      table_rows = []\<rparr>"

text \<open>
  Claim C4. The builder is a total function: on every catalog (a finite list of
  answers) it ends, either returning or halted by a connection that was not obtained.
  When the definition of \<^verbatim>\<open>a\<close> references \<^verbatim>\<open>b\<close> and the definition of \<^verbatim>\<open>b\<close>
  references \<^verbatim>\<open>a\<close>, the request for \<^verbatim>\<open>a\<close> returns whenever the fetches obtain their
  connection, and in what it returns \<^verbatim>\<open>a\<close> and \<^verbatim>\<open>b\<close> are each a key of
  \<^verbatim>\<open>ddl_dict\<close> exactly once; the definition of a name has been fetched once if the name
  was visited and never otherwise.
\<close>

theorem cycle_terminates:
  assumes "view_text cat a \<noteq> []" and "b \<in> set (dependency_set (view_text cat a))"
    and "view_text cat b \<noteq> []" and "a \<in> set (dependency_set (view_text cat b))"
  shows "((\<exists>s. generate_lineage ord cat a = Inr s)
          \<or> generate_lineage ord cat a = Inl StopException \<and> \<not> all_connect cat)
       \<and> (\<forall>s. generate_lineage ord cat a = Inr s \<longrightarrow>
              count_list (map fst (ddl_dict s)) a = 1
              \<and> count_list (map fst (ddl_dict s)) b = 1
              \<and> (\<forall>n. count_list (fetches s) (ViewFetch n) = (if n \<in> visited s then 1 else 0)))"
proof (intro conjI allI impI)
  show "(\<exists>s. generate_lineage ord cat a = Inr s)
          \<or> generate_lineage ord cat a = Inl StopException \<and> \<not> all_connect cat"
  proof (cases "generate_lineage ord cat a")
    case (Inl h)
    then show ?thesis
      using build_halts_only_by_stop(1) [of ord cat a initial_state h]
      by (simp add: generate_lineage_def)
  next
    case (Inr s)
    then show ?thesis by blast
  qed
next
  fix s assume g: "generate_lineage ord cat a = Inr s"
  note ok = generate_lineage_records [OF g]
  have va: "a \<in> visited s" using g by (rule generate_lineage_root)
  have vb: "b \<in> visited s"
    using generate_lineage_closed [OF g va assms(1)] assms(2) by blast
  have d: "distinct (map fst (ddl_dict s))"
    using ok(2) by (simp add: keys_distinct_def)
  have "map_of (ddl_dict s) a \<noteq> None" "map_of (ddl_dict s) b \<noteq> None"
    using ok(1) va vb assms(1,3) by (simp_all add: records_ok_def)
  then have "a \<in> set (map fst (ddl_dict s))" "b \<in> set (map fst (ddl_dict s))"
    by (simp_all add: map_of_eq_None_iff)
  with d show "count_list (map fst (ddl_dict s)) a = 1"
    and "count_list (map fst (ddl_dict s)) b = 1"
    by (simp_all add: count_list_distinct)
  show "\<And>n. count_list (fetches s) (ViewFetch n) = (if n \<in> visited s then 1 else 0)"
    using generate_lineage_fetched_once [OF g] by (simp add: fetched_once_def)
qed

theorem cycle_terminates_witness:
  "\<exists>s. generate_lineage (\<lambda>_ _. 0) cycle_catalog ''a'' = Inr s
     \<and> count_list (map fst (ddl_dict s)) ''a'' = 1
     \<and> count_list (map fst (ddl_dict s)) ''b'' = 1
     \<and> count_list (fetches s) (ViewFetch ''a'') = 1
     \<and> count_list (fetches s) (ViewFetch ''b'') = 1"
proof -
  have vt: "view_text cycle_catalog ''a'' = ''SELECT * FROM b''"
    "view_text cycle_catalog ''b'' = ''SELECT x FROM a''"
    by (simp_all add: view_text_def view_outcome_def cycle_catalog_def)
  have ds: "dependency_set ''SELECT * FROM b'' = [''b'']"
    "dependency_set ''SELECT x FROM a'' = [''a'']"
    by code_simp+
  have c: "all_connect cycle_catalog"
    by (simp add: all_connect_def cycle_catalog_def)
  note inst = cycle_terminates [of cycle_catalog "''a''" "''b''" "\<lambda>_ _. 0"]
  have h: "view_text cycle_catalog ''a'' \<noteq> []"
    "''b'' \<in> set (dependency_set (view_text cycle_catalog ''a''))"
    "view_text cycle_catalog ''b'' \<noteq> []"
    "''a'' \<in> set (dependency_set (view_text cycle_catalog ''b''))"
    by (simp_all add: vt ds)
  from inst [OF h] c obtain s where
    g: "generate_lineage (\<lambda>_ _. 0) cycle_catalog ''a'' = Inr s" by blast
  have va: "''a'' \<in> visited s" using g by (rule generate_lineage_root)
  have vb: "''b'' \<in> visited s"
    using generate_lineage_closed [OF g va h(1)] h(2) by blast
  from inst [OF h] g va vb show ?thesis by auto
qed

section \<open>The graph and the names reached\<close>

lemma dependency_set_Nil: "dependency_set [] = []"
  by (simp add: dependency_set_def)

lemma add_node_nodes: "set (nodes (add_node g n)) = insert n (set (nodes g))"
  by (auto simp: add_node_def)

lemma add_node_edges: "edges (add_node g n) = edges g"
  by (simp add: add_node_def)

lemma add_node_distinct: "distinct (nodes g) \<Longrightarrow> distinct (nodes (add_node g n))"
  by (simp add: add_node_def)

lemma add_edge_nodes: "set (nodes (add_edge g u v)) = insert u (insert v (set (nodes g)))"
  by (auto simp: add_edge_def Let_def add_node_nodes)

lemma add_edge_edges: "set (edges (add_edge g u v)) = insert (u, v) (set (edges g))"
  by (auto simp: add_edge_def Let_def add_node_edges)

lemma add_edge_distinct:
  "distinct (nodes g) \<Longrightarrow> distinct (nodes (add_edge g u v))"
  "distinct (edges g) \<Longrightarrow> distinct (edges (add_edge g u v))"
  by (simp_all add: add_edge_def Let_def add_node_distinct add_node_edges)

text \<open>
  The graph is well formed: no node and no edge twice, the nodes are the end points of
  the edges, and every edge leads from a name the definition of a visited view
  references to that view.
\<close>

definition graph_ok :: "catalog \<Rightarrow> lineage_state \<Rightarrow> bool" where
  "graph_ok cat s \<longleftrightarrow>
     distinct (nodes (graph s)) \<and> distinct (edges (graph s))
     \<and> set (nodes (graph s)) = fst ` set (edges (graph s)) \<union> snd ` set (edges (graph s))
     \<and> (\<forall>(u, v) \<in> set (edges (graph s)).
           v \<in> visited s \<and> u \<in> set (dependency_set (view_text cat v)))"

lemma graph_ok_preserved:
  assumes "graph_ok cat s" and "build_full_lineage ord cat n s = Inr s'"
  shows "graph_ok cat s'"
proof (rule invariant_preserved(1) [where I = "graph_ok cat", OF _ _ _ assms])
  fix s d n
  assume "graph_ok cat s" and "n \<in> visited s"
    and "d \<in> set (dependency_set (view_text cat n))"
  then show "graph_ok cat (s\<lparr>graph := add_edge (graph s) d n\<rparr>)"
    by (auto simp: graph_ok_def add_edge_nodes add_edge_edges add_edge_distinct)
next
  fix s n
  assume "graph_ok cat s"
  then show "graph_ok cat
      ((entered cat n s)\<lparr>ddl_dict := dict_set (ddl_dict s) n (view_text cat n)\<rparr>)"
    by (auto simp: graph_ok_def entered_def)
next
  fix s n
  assume "graph_ok cat s"
  then show "graph_ok cat (resolved cat n (entered cat n s))"
    by (auto simp: graph_ok_def entered_def resolved_def)
qed

lemma edges_complete:
  "build_full_lineage ord cat n s = Inr s' \<Longrightarrow>
     set (edges (graph s)) \<subseteq> set (edges (graph s'))
     \<and> (\<forall>m \<in> visited s' - visited s. \<forall>u \<in> set (dependency_set (view_text cat m)).
           (u, m) \<in> set (edges (graph s')))"
  "for_dependencies ord cat n ds s = Inr s' \<Longrightarrow>
     set (edges (graph s)) \<subseteq> set (edges (graph s'))
     \<and> (\<forall>u \<in> set ds. (u, n) \<in> set (edges (graph s')))
     \<and> (\<forall>m \<in> visited s' - visited s. \<forall>u \<in> set (dependency_set (view_text cat m)).
           (u, m) \<in> set (edges (graph s')))"
proof (induction n s and n ds s arbitrary: s' and s' rule: build_induct [of _ cat _ ord])
  case (visited n s)
  then show ?case by (simp add: build_visited)
next
  case (stop n s)
  then show ?case by (simp add: build_stop)
next
  case (view n s)
  let ?s1 = "(entered cat n s)\<lparr>ddl_dict := dict_set (ddl_dict s) n (view_text cat n)\<rparr>"
  from view.prems view.hyps have
    f: "for_dependencies ord cat n (extract_dependencies ord (view_text cat n)) ?s1 = Inr s'"
    by (simp add: build_view)
  have v1: "visited ?s1 = insert n (visited s)" "graph ?s1 = graph s"
    by (simp_all add: entered_def)
  from view.IH [OF f] v1 show ?case
    by (auto simp: set_extract_dependencies)
next
  case (leaf n s)
  from build_leaf_cases [OF leaf.hyps leaf.prems] leaf.hyps(3) show ?case
    by (auto simp: resolved_def entered_def dependency_set_Nil)
next
  case (nil n s)
  then show ?case by simp
next
  case (cons n d ds s)
  from cons.prems obtain s1 where
    b: "build_full_lineage ord cat d (s\<lparr>graph := add_edge (graph s) d n\<rparr>) = Inr s1"
    and f: "for_dependencies ord cat n ds s1 = Inr s'"
    by (auto split: sum.splits)
  note 1 = cons.IH(1) [OF b] and 2 = cons.IH(2) [OF b f]
  have e0: "set (edges (graph s)) \<subseteq> set (edges (graph s1))" "(d, n) \<in> set (edges (graph s1))"
    using 1 by (auto simp: add_edge_edges)
  have "\<forall>m \<in> visited s' - visited s. \<forall>u \<in> set (dependency_set (view_text cat m)).
           (u, m) \<in> set (edges (graph s'))"
  proof (intro ballI)
    fix m u assume m: "m \<in> visited s' - visited s"
      and u: "u \<in> set (dependency_set (view_text cat m))"
    show "(u, m) \<in> set (edges (graph s'))"
    proof (cases "m \<in> visited s1")
      case True
      with m u 1 have "(u, m) \<in> set (edges (graph s1))" by simp
      with 2 show ?thesis by blast
    next
      case False
      with m u 2 show ?thesis by simp
    qed
  qed
  with e0 2 show ?case by auto
qed

text \<open>
  The names a name leads to: those its definition references; and the names reachable
  from a root along such references.
\<close>

definition references :: "catalog \<Rightarrow> (string \<times> string) set" where
  "references cat = {(n, d). d \<in> set (dependency_set (view_text cat n))}"

definition reachable :: "catalog \<Rightarrow> string \<Rightarrow> string set" where
  "reachable cat root = (references cat)\<^sup>* `` {root}"

lemma visited_within:
  assumes closed: "\<And>m d. m \<in> R \<Longrightarrow> (m, d) \<in> references cat \<Longrightarrow> d \<in> R"
  shows "visited s \<subseteq> R \<Longrightarrow> n \<in> R \<Longrightarrow> build_full_lineage ord cat n s = Inr s' \<Longrightarrow>
           visited s' \<subseteq> R"
    and "visited s \<subseteq> R \<Longrightarrow> set ds \<subseteq> R \<Longrightarrow> for_dependencies ord cat n ds s = Inr s' \<Longrightarrow>
           visited s' \<subseteq> R"
proof (induction n s and n ds s arbitrary: s' and s' rule: build_induct [of _ cat _ ord])
  case (visited n s)
  then show ?case by (simp add: build_visited)
next
  case (stop n s)
  then show ?case by (simp add: build_stop)
next
  case (view n s)
  let ?s1 = "(entered cat n s)\<lparr>ddl_dict := dict_set (ddl_dict s) n (view_text cat n)\<rparr>"
  from view.prems view.hyps have
    f: "for_dependencies ord cat n (extract_dependencies ord (view_text cat n)) ?s1 = Inr s'"
    by (simp add: build_view)
  have "visited ?s1 \<subseteq> R" using view.prems(1,2) by (simp add: entered_def)
  moreover have "set (extract_dependencies ord (view_text cat n)) \<subseteq> R"
    using closed [OF view.prems(2)] by (auto simp: set_extract_dependencies references_def)
  ultimately show ?case using f by (rule view.IH)
next
  case (leaf n s)
  from build_leaf_cases [OF leaf.hyps leaf.prems(3)] leaf.prems(1,2) show ?case
    by (auto simp: resolved_def entered_def)
next
  case (nil n s)
  then show ?case by simp
next
  case (cons n d ds s)
  from cons.prems(3) obtain s1 where
    b: "build_full_lineage ord cat d (s\<lparr>graph := add_edge (graph s) d n\<rparr>) = Inr s1"
    and f: "for_dependencies ord cat n ds s1 = Inr s'"
    by (auto split: sum.splits)
  have "visited (s\<lparr>graph := add_edge (graph s) d n\<rparr>) \<subseteq> R" using cons.prems(1) by simp
  moreover have "d \<in> R" using cons.prems(2) by simp
  ultimately have "visited s1 \<subseteq> R" using b by (rule cons.IH(1))
  moreover have "set ds \<subseteq> R" using cons.prems(2) by simp
  ultimately show ?case using f by (rule cons.IH(2) [OF b])
qed

lemma generate_lineage_visited:
  assumes "generate_lineage ord cat root = Inr s"
  shows "visited s = reachable cat root"
proof
  show "visited s \<subseteq> reachable cat root"
  proof (rule visited_within(1) [of "reachable cat root" cat initial_state root ord s])
    fix m d assume "m \<in> reachable cat root" and "(m, d) \<in> references cat"
    then show "d \<in> reachable cat root"
      by (auto simp: reachable_def intro: rtrancl_into_rtrancl)
  qed (use assms in \<open>simp_all add: initial_state_def reachable_def generate_lineage_def\<close>)
next
  show "reachable cat root \<subseteq> visited s"
  proof
    fix n assume "n \<in> reachable cat root"
    then have "(root, n) \<in> (references cat)\<^sup>*" by (simp add: reachable_def)
    then show "n \<in> visited s"
    proof (induction rule: rtrancl_induct)
      case base
      show ?case using assms by (rule generate_lineage_root)
    next
      case (step m d)
      then have "view_text cat m \<noteq> []"
        by (auto simp: references_def dependency_set_Nil)
      from generate_lineage_closed [OF assms step.IH this] step.hyps(2) show ?case
        by (auto simp: references_def)
    qed
  qed
qed

lemma generate_lineage_edges:
  assumes "generate_lineage ord cat root = Inr s"
  shows "set (edges (graph s)) = {(d, n). n \<in> reachable cat root \<and> (n, d) \<in> references cat}"
    and "graph_ok cat s"
proof -
  have "graph_ok cat initial_state" by (simp add: graph_ok_def initial_state_def)
  then show ok: "graph_ok cat s"
    using assms unfolding generate_lineage_def by (rule graph_ok_preserved)
  have "\<forall>m \<in> visited s. \<forall>u \<in> set (dependency_set (view_text cat m)).
           (u, m) \<in> set (edges (graph s))"
    using edges_complete(1) [of ord cat root initial_state s] assms
    by (simp add: generate_lineage_def initial_state_def)
  with ok show "set (edges (graph s))
      = {(d, n). n \<in> reachable cat root \<and> (n, d) \<in> references cat}"
    unfolding generate_lineage_visited [OF assms, symmetric]
    by (auto simp: graph_ok_def references_def)
qed

section \<open>The diamond\<close>

text \<open>
  The iteration order in which a set hands out its elements as they were added (the sort
  is stable and every key is equal).
\<close>

definition insertion_order :: set_order where
  "insertion_order xs x = 0"

text \<open>
  The diamond: \<^verbatim>\<open>a\<close> over \<^verbatim>\<open>b\<close> and \<^verbatim>\<open>c\<close>, both over the base table \<^verbatim>\<open>d\<close>.
\<close>

definition diamond_catalog :: catalog where
  "diamond_catalog =
     \<lparr>view_rows = [(''a'', VRow (Some ''SELECT * FROM b JOIN c ON b.k = c.k'')),
                   (''b'', VRow (Some ''SELECT k FROM d'')),
                   (''c'', VRow (Some ''SELECT k FROM d WHERE k > 0''))],
      table_rows = [((''dbc'', ''d''), TRows sales_columns)]\<rparr>"

lemma reachable_closed_set:
  assumes "root \<in> R" and "\<And>m d. m \<in> R \<Longrightarrow> (m, d) \<in> references cat \<Longrightarrow> d \<in> R"
  shows "reachable cat root \<subseteq> R"
proof
  fix n assume "n \<in> reachable cat root"
  then have "(root, n) \<in> (references cat)\<^sup>*" by (simp add: reachable_def)
  then show "n \<in> R"
    by (induction rule: rtrancl_induct) (use assms in auto)
qed

lemma reachable_root: "root \<in> reachable cat root"
  by (simp add: reachable_def)

lemma reachable_step:
  "m \<in> reachable cat root \<Longrightarrow> d \<in> set (dependency_set (view_text cat m)) \<Longrightarrow>
     d \<in> reachable cat root"
  by (auto simp: reachable_def references_def intro: rtrancl_into_rtrancl)

text \<open>
  Claim C5. In the diamond, where \<^verbatim>\<open>a\<close> references exactly \<^verbatim>\<open>b\<close> and \<^verbatim>\<open>c\<close>, both
  reference exactly \<^verbatim>\<open>d\<close> and \<^verbatim>\<open>d\<close> references nothing, the definition of \<^verbatim>\<open>d\<close>
  is fetched once, and the graph has the four edges \<^verbatim>\<open>d\<close> to \<^verbatim>\<open>b\<close>, \<^verbatim>\<open>d\<close> to
  \<^verbatim>\<open>c\<close>, \<^verbatim>\<open>b\<close> to \<^verbatim>\<open>a\<close>, \<^verbatim>\<open>c\<close> to \<^verbatim>\<open>a\<close>, each once, from the dependency to
  the dependent, whatever the order in which the dependencies are iterated.
\<close>

theorem diamond_fetched_once:
  assumes "distinct [a, b, c, d]"
    and "set (dependency_set (view_text cat a)) = {b, c}"
    and "set (dependency_set (view_text cat b)) = {d}"
    and "set (dependency_set (view_text cat c)) = {d}"
    and "dependency_set (view_text cat d) = []"
    and "generate_lineage ord cat a = Inr s"
  shows "count_list (fetches s) (ViewFetch d) = 1
       \<and> set (edges (graph s)) = {(d, b), (d, c), (b, a), (c, a)}
       \<and> distinct (edges (graph s)) \<and> length (edges (graph s)) = 4"
proof -
  note g = assms(6)
  have "reachable cat a \<subseteq> {a, b, c, d}"
    by (rule reachable_closed_set) (use assms(2-5) in \<open>auto simp: references_def\<close>)
  moreover have "{a, b, c, d} \<subseteq> reachable cat a"
  proof -
    have a: "a \<in> reachable cat a" by (rule reachable_root)
    then have b: "b \<in> reachable cat a" and c: "c \<in> reachable cat a"
      using assms(2) by (auto intro: reachable_step)
    from b have "d \<in> reachable cat a"
      using assms(3) by (auto intro: reachable_step)
    with a b c show ?thesis by simp
  qed
  ultimately have r: "reachable cat a = {a, b, c, d}" by blast
  have "d \<in> visited s"
    unfolding generate_lineage_visited [OF g] r by simp
  then have 1: "count_list (fetches s) (ViewFetch d) = 1"
    using generate_lineage_fetched_once [OF g] by (simp add: fetched_once_def)
  have 2: "set (edges (graph s)) = {(d, b), (d, c), (b, a), (c, a)}"
    unfolding generate_lineage_edges(1) [OF g] r
    using assms(2-5) by (auto simp: references_def)
  have 3: "distinct (edges (graph s))"
    using generate_lineage_edges(2) [OF g] by (simp add: graph_ok_def)
  have "{(d, b), (d, c), (b, a), (c, a)} = set [(d, b), (d, c), (b, a), (c, a)]"
    by simp
  moreover have "distinct [(d, b), (d, c), (b, a), (c, a)]"
    using assms(1) by auto
  ultimately have "card (set (edges (graph s))) = 4"
    unfolding 2 by (simp only: distinct_card) simp
  with 3 have 4: "length (edges (graph s)) = 4"
    by (simp add: distinct_card)
  from 1 2 3 4 show ?thesis by simp
qed

theorem diamond_fetched_once_witness:
  "\<exists>s. generate_lineage insertion_order diamond_catalog ''a'' = Inr s
     \<and> count_list (fetches s) (ViewFetch ''d'') = 1
     \<and> set (edges (graph s)) = {(''d'', ''b''), (''d'', ''c''), (''b'', ''a''), (''c'', ''a'')}
     \<and> length (edges (graph s)) = 4"
proof -
  have vt: "view_text diamond_catalog ''a'' = ''SELECT * FROM b JOIN c ON b.k = c.k''"
    "view_text diamond_catalog ''b'' = ''SELECT k FROM d''"
    "view_text diamond_catalog ''c'' = ''SELECT k FROM d WHERE k > 0''"
    "view_text diamond_catalog ''d'' = []"
    by (simp_all add: view_text_def view_outcome_def diamond_catalog_def)
  have ds: "dependency_set ''SELECT * FROM b JOIN c ON b.k = c.k'' = [''b'', ''c'']"
    "dependency_set ''SELECT k FROM d'' = [''d'']"
    "dependency_set ''SELECT k FROM d WHERE k > 0'' = [''d'']"
    by code_simp+
  have "all_connect diamond_catalog"
    by (simp add: all_connect_def diamond_catalog_def)
  then obtain s where g: "generate_lineage insertion_order diamond_catalog ''a'' = Inr s"
    using build_returns(1) unfolding generate_lineage_def by blast
  have "count_list (fetches s) (ViewFetch ''d'') = 1
       \<and> set (edges (graph s)) = {(''d'', ''b''), (''d'', ''c''), (''b'', ''a''), (''c'', ''a'')}
       \<and> distinct (edges (graph s)) \<and> length (edges (graph s)) = 4"
    by (rule diamond_fetched_once [OF _ _ _ _ _ g])
       (simp_all add: vt ds dependency_set_Nil)
  with g show ?thesis by blast
qed

section \<open>The nodes of the graph\<close>

text \<open>
  Claim C2, as stated, fails: the root \<^verbatim>\<open>orders\<close> resolves as a base table and is
  recorded, but the graph of the request has no node. Nodes enter the graph only as end
  points of an edge.
\<close>

theorem root_without_dependencies_is_no_node:
  "generate_lineage insertion_order orders_catalog ''orders'' =
     Inr \<lparr>graph = \<lparr>nodes = [], edges = []\<rparr>, visited = {''orders''}, ddl_dict = [],
          table_metadata_dict =
            [(''orders'',
              [\<lparr>ColumnName = ''id'', ColumnFormat = None, ColumnType = ''I'',
                 ColumnLength = 4, Nullable = ''N'', CompressValueList = None\<rparr>])],
          errors = [],
          fetches = [ViewFetch ''orders'', TableFetch ''dbc'' ''orders'']\<rparr>"
proof -
  have "view_outcome orders_catalog ''orders'' \<noteq> VNoConnection"
    "view_text orders_catalog ''orders'' = []"
    "view_errors orders_catalog ''orders'' = []"
    "table_connects orders_catalog ''orders''"
    "table_errors orders_catalog ''orders'' = []"
    "table_call ''orders'' = TableFetch ''dbc'' ''orders''"
    "table_columns orders_catalog ''orders'' =
       [\<lparr>ColumnName = ''id'', ColumnFormat = None, ColumnType = ''I'',
          ColumnLength = 4, Nullable = ''N'', CompressValueList = None\<rparr>]"
    by (simp_all add: view_outcome_def view_text_def view_errors_def table_connects_def
          table_errors_def table_call_def table_columns_def split_name_def table_outcome_def
          orders_catalog_def)
  then show ?thesis
    by (simp add: generate_lineage_def build_leaf resolve_table_resolved resolved_def
          entered_def initial_state_def)
qed

text \<open>
  Claim C2, amended. When the request returns, the names visited are the names reachable
  from the root. If the definition of the root references at least one name, the nodes
  of the graph are these names, the root included; otherwise the graph has no node.
\<close>

theorem graph_nodes_are_reachable_names:
  assumes "generate_lineage ord cat root = Inr s"
  shows "visited s = reachable cat root
       \<and> set (nodes (graph s)) =
           (if dependency_set (view_text cat root) = [] then {} else reachable cat root)"
proof -
  note e = generate_lineage_edges [OF assms]
  have n: "set (nodes (graph s)) = fst ` set (edges (graph s)) \<union> snd ` set (edges (graph s))"
    using e(2) by (simp add: graph_ok_def)
  have "set (nodes (graph s)) =
           (if dependency_set (view_text cat root) = [] then {} else reachable cat root)"
  proof (cases "dependency_set (view_text cat root) = []")
    case True
    have "reachable cat root \<subseteq> {root}"
      by (rule reachable_closed_set) (use True in \<open>auto simp: references_def\<close>)
    then have "set (edges (graph s)) = {}"
      unfolding e(1) using True by (auto simp: references_def)
    with n True show ?thesis by simp
  next
    case False
    then obtain d0 where d0: "d0 \<in> set (dependency_set (view_text cat root))"
      by (cases "dependency_set (view_text cat root)") auto
    have "set (nodes (graph s)) = reachable cat root"
    proof
      show "set (nodes (graph s)) \<subseteq> reachable cat root"
      proof
        fix x assume "x \<in> set (nodes (graph s))"
        then obtain u v where uv: "(u, v) \<in> set (edges (graph s))" and x: "x = u \<or> x = v"
          unfolding n by auto
        from uv have v: "v \<in> reachable cat root"
          and u: "u \<in> set (dependency_set (view_text cat v))"
          unfolding e(1) by (simp_all add: references_def)
        from v u have "u \<in> reachable cat root" by (rule reachable_step)
        with v x show "x \<in> reachable cat root" by blast
      qed
    next
      show "reachable cat root \<subseteq> set (nodes (graph s))"
      proof
        fix x assume "x \<in> reachable cat root"
        then have "(root, x) \<in> (references cat)\<^sup>*" by (simp add: reachable_def)
        then show "x \<in> set (nodes (graph s))"
        proof (cases rule: rtranclE)
          case base
          have "(d0, root) \<in> set (edges (graph s))"
            unfolding e(1) using d0 by (simp add: references_def reachable_root)
          then have "root \<in> snd ` set (edges (graph s))" by force
          with base n show ?thesis by simp
        next
          case (step m)
          then have "m \<in> reachable cat root" by (simp add: reachable_def)
          with step(2) have "(x, m) \<in> set (edges (graph s))"
            unfolding e(1) by simp
          then have "x \<in> fst ` set (edges (graph s))" by force
          with n show ?thesis by simp
        qed
      qed
    qed
    with False show ?thesis by simp
  qed
  with generate_lineage_visited [OF assms] show ?thesis by simp
qed

theorem graph_nodes_are_reachable_names_witness:
  "(\<exists>s. generate_lineage insertion_order diamond_catalog ''a'' = Inr s
      \<and> visited s = {''a'', ''b'', ''c'', ''d''}
      \<and> set (nodes (graph s)) = {''a'', ''b'', ''c'', ''d''})
   \<and> (\<exists>s. generate_lineage insertion_order orders_catalog ''orders'' = Inr s
      \<and> visited s = {''orders''} \<and> set (nodes (graph s)) = {})"
proof -
  have vt: "view_text diamond_catalog ''a'' = ''SELECT * FROM b JOIN c ON b.k = c.k''"
    "view_text diamond_catalog ''b'' = ''SELECT k FROM d''"
    "view_text diamond_catalog ''c'' = ''SELECT k FROM d WHERE k > 0''"
    "view_text diamond_catalog ''d'' = []"
    by (simp_all add: view_text_def view_outcome_def diamond_catalog_def)
  have ds: "dependency_set ''SELECT * FROM b JOIN c ON b.k = c.k'' = [''b'', ''c'']"
    "dependency_set ''SELECT k FROM d'' = [''d'']"
    "dependency_set ''SELECT k FROM d WHERE k > 0'' = [''d'']"
    by code_simp+
  have "all_connect diamond_catalog"
    by (simp add: all_connect_def diamond_catalog_def)
  then obtain s where g: "generate_lineage insertion_order diamond_catalog ''a'' = Inr s"
    using build_returns(1) unfolding generate_lineage_def by blast
  have "reachable diamond_catalog ''a'' \<subseteq> {''a'', ''b'', ''c'', ''d''}"
    by (rule reachable_closed_set)
       (auto simp: references_def vt ds dependency_set_Nil)
  moreover have "{''a'', ''b'', ''c'', ''d''} \<subseteq> reachable diamond_catalog ''a''"
  proof -
    have a: "''a'' \<in> reachable diamond_catalog ''a''" by (rule reachable_root)
    have b: "''b'' \<in> reachable diamond_catalog ''a''"
      using a by (rule reachable_step) (simp add: vt ds)
    have c: "''c'' \<in> reachable diamond_catalog ''a''"
      using a by (rule reachable_step) (simp add: vt ds)
    from b have "''d'' \<in> reachable diamond_catalog ''a''"
      by (rule reachable_step) (simp add: vt ds)
    with a b c show ?thesis by simp
  qed
  ultimately have r: "reachable diamond_catalog ''a'' = {''a'', ''b'', ''c'', ''d''}"
    by (rule subset_antisym)
  from graph_nodes_are_reachable_names [OF g] have
    1: "visited s = {''a'', ''b'', ''c'', ''d''} \<and> set (nodes (graph s)) = {''a'', ''b'', ''c'', ''d''}"
    by (simp add: r vt ds)
  have "all_connect orders_catalog"
    by (simp add: all_connect_def orders_catalog_def)
  then obtain t where h: "generate_lineage insertion_order orders_catalog ''orders'' = Inr t"
    using build_returns(1) unfolding generate_lineage_def by blast
  have vo: "view_text orders_catalog ''orders'' = []"
    by (simp add: view_text_def view_outcome_def orders_catalog_def)
  have "reachable orders_catalog ''orders'' \<subseteq> {''orders''}"
    by (rule reachable_closed_set) (auto simp: references_def vo dependency_set_Nil)
  moreover have "{''orders''} \<subseteq> reachable orders_catalog ''orders''"
    by (simp add: reachable_root)
  ultimately have "reachable orders_catalog ''orders'' = {''orders''}"
    by (rule subset_antisym)
  with graph_nodes_are_reachable_names [OF h] have
    2: "visited t = {''orders''} \<and> set (nodes (graph t)) = {}"
    by (simp add: vo dependency_set_Nil)
  have A: "\<exists>s. generate_lineage insertion_order diamond_catalog ''a'' = Inr s
      \<and> visited s = {''a'', ''b'', ''c'', ''d''}
      \<and> set (nodes (graph s)) = {''a'', ''b'', ''c'', ''d''}"
    by (rule exI [of _ s]) (use g 1 in simp)
  have B: "\<exists>s. generate_lineage insertion_order orders_catalog ''orders'' = Inr s
      \<and> visited s = {''orders''} \<and> set (nodes (graph s)) = {}"
    by (rule exI [of _ t]) (use h 2 in simp)
  from A B show ?thesis by (rule conjI)
qed

section \<open>Fetches that obtain no connection\<close>

text \<open>
  The fetches made for a name obtain their connection: the fetch of its definition and,
  when that gives no truthy text, the fetch of its columns as a table candidate.
\<close>

definition connects :: "catalog \<Rightarrow> string \<Rightarrow> bool" where
  "connects cat n \<longleftrightarrow>
     view_outcome cat n \<noteq> VNoConnection \<and> (view_text cat n = [] \<longrightarrow> table_connects cat n)"

lemma all_connect_connects: "all_connect cat \<Longrightarrow> connects cat n"
  by (simp add: connects_def all_connect_view all_connect_table)

lemma connects_preserved:
  "\<forall>m \<in> visited s. connects cat m \<Longrightarrow> build_full_lineage ord cat n s = Inr s' \<Longrightarrow>
     \<forall>m \<in> visited s'. connects cat m"
  by (erule invariant_preserved(1) [where I = "\<lambda>s. \<forall>m \<in> visited s. connects cat m", rotated 3])
     (auto simp: connects_def entered_def resolved_def)

lemma generate_lineage_connects:
  "generate_lineage ord cat root = Inr s \<Longrightarrow> \<forall>m \<in> visited s. connects cat m"
  unfolding generate_lineage_def
  by (erule connects_preserved [rotated]) (simp add: initial_state_def)

lemma build_returns_within:
  assumes closed: "\<And>m d. m \<in> R \<Longrightarrow> d \<in> set (dependency_set (view_text cat m)) \<Longrightarrow> d \<in> R"
    and conn: "\<And>m. m \<in> R \<Longrightarrow> connects cat m"
  shows "n \<in> R \<Longrightarrow> \<exists>s'. build_full_lineage ord cat n s = Inr s'"
    and "set ds \<subseteq> R \<Longrightarrow> \<exists>s'. for_dependencies ord cat n ds s = Inr s'"
proof (induction n s and n ds s rule: build_induct [of _ cat _ ord])
  case (visited n s)
  then show ?case by (simp add: build_visited)
next
  case (stop n s)
  with conn [of n] show ?case by (simp add: connects_def)
next
  case (view n s)
  have "set (extract_dependencies ord (view_text cat n)) \<subseteq> R"
    using closed [OF view.prems] by (auto simp: set_extract_dependencies)
  from view.IH [OF this] view.hyps show ?case by (simp add: build_view)
next
  case (leaf n s)
  from conn [OF leaf.prems] leaf.hyps(3) have "table_connects cat n"
    by (simp add: connects_def)
  with leaf.hyps show ?case by (simp add: build_leaf resolve_table_resolved)
next
  case (nil n s)
  then show ?case by simp
next
  case (cons n d ds s)
  from cons.prems have d: "d \<in> R" and ds: "set ds \<subseteq> R" by simp_all
  from cons.IH(1) [OF d] obtain s1 where
    b: "build_full_lineage ord cat d (s\<lparr>graph := add_edge (graph s) d n\<rparr>) = Inr s1" by blast
  from cons.IH(2) [OF b ds] b show ?case by simp
qed

lemma generate_lineage_returns_iff:
  "(\<exists>s. generate_lineage ord cat root = Inr s) \<longleftrightarrow> (\<forall>n \<in> reachable cat root. connects cat n)"
proof
  assume "\<exists>s. generate_lineage ord cat root = Inr s"
  then obtain s where g: "generate_lineage ord cat root = Inr s" ..
  from generate_lineage_connects [OF g] generate_lineage_visited [OF g]
  show "\<forall>n \<in> reachable cat root. connects cat n" by simp
next
  assume c: "\<forall>n \<in> reachable cat root. connects cat n"
  have "\<exists>s'. build_full_lineage ord cat root initial_state = Inr s'"
  proof (rule build_returns_within(1) [of "reachable cat root"])
    fix m d assume "m \<in> reachable cat root" and "d \<in> set (dependency_set (view_text cat m))"
    then show "d \<in> reachable cat root" by (rule reachable_step)
  next
    fix m assume "m \<in> reachable cat root"
    with c show "connects cat m" by simp
  next
    show "root \<in> reachable cat root" by (rule reachable_root)
  qed
  then show "\<exists>s. generate_lineage ord cat root = Inr s"
    by (simp add: generate_lineage_def)
qed

lemma generate_lineage_halt:
  "generate_lineage ord cat root = Inl h \<Longrightarrow> h = StopException"
  unfolding generate_lineage_def by (drule build_halts_only_by_stop(1)) simp

text \<open>
  The views of the offline catalog, where the definition of \<^verbatim>\<open>a\<close> is absent and it is
  the fetch of the columns of \<^verbatim>\<open>b\<close> that obtains no connection.
\<close>

definition unplugged_catalog :: catalog where
  "unplugged_catalog =
     \<lparr>view_rows = [(''v'', VRow (Some ''SELECT * FROM a JOIN b ON 1 = 1''))],
      table_rows = [((''dbc'', ''a''), TRows sales_columns), ((''dbc'', ''b''), TNoConnection)]\<rparr>"

text \<open>
  Claim C3, amended. A fetch that raises is shown as an \<^verbatim>\<open>st.error\<close> message and counts
  as a fetch without result, and the traversal goes on: when the request returns, the
  names visited are all the names reachable from the root, the ones queued after a
  raising fetch included, the message of every raising fetch has been shown, and the
  dictionaries hold what the catalog answers for these names, raising fetches read as
  absent. A fetch that obtains no connection halts the whole request: the request
  returns exactly when the fetches made for every name reachable from the root obtain
  their connection, and is halted by \<^verbatim>\<open>st.stop()\<close> exactly when one of them does not,
  be it the fetch of a definition or of the columns of a table candidate, for the root or
  for a dependency. When no fetch of the catalog fails to connect, the request returns
  for every root.
\<close>

theorem fetch_errors_absorbed_unless_no_connection:
  "(generate_lineage ord cat root = Inl StopException
      \<longleftrightarrow> (\<exists>n \<in> reachable cat root. \<not> connects cat n))
   \<and> ((\<exists>s. generate_lineage ord cat root = Inr s)
      \<longleftrightarrow> (\<forall>n \<in> reachable cat root. connects cat n))
   \<and> (\<forall>s. generate_lineage ord cat root = Inr s \<longrightarrow>
        visited s = reachable cat root \<and> errors_reported cat s \<and> records_ok cat s)
   \<and> (all_connect cat \<longrightarrow> (\<exists>s. generate_lineage ord cat root = Inr s))"
proof (intro conjI allI impI)
  show "generate_lineage ord cat root = Inl StopException
      \<longleftrightarrow> (\<exists>n \<in> reachable cat root. \<not> connects cat n)"
  proof (cases "generate_lineage ord cat root")
    case (Inl h)
    then have "h = StopException" by (rule generate_lineage_halt)
    moreover have "\<not> (\<forall>n \<in> reachable cat root. connects cat n)"
      using Inl generate_lineage_returns_iff [of ord cat root] by simp
    ultimately show ?thesis using Inl by simp
  next
    case (Inr s)
    then have "\<forall>n \<in> reachable cat root. connects cat n"
      using generate_lineage_returns_iff [of ord cat root] by simp
    with Inr show ?thesis by simp
  qed
next
  show "(\<exists>s. generate_lineage ord cat root = Inr s)
      \<longleftrightarrow> (\<forall>n \<in> reachable cat root. connects cat n)"
    by (rule generate_lineage_returns_iff)
next
  fix s assume g: "generate_lineage ord cat root = Inr s"
  show "visited s = reachable cat root" using g by (rule generate_lineage_visited)
  have "errors_reported cat initial_state"
    by (simp add: errors_reported_def initial_state_def)
  then show "errors_reported cat s"
    using g unfolding generate_lineage_def by (rule errors_reported_preserved)
  show "records_ok cat s" using g by (rule generate_lineage_records)
next
  assume "all_connect cat"
  then show "\<exists>s. generate_lineage ord cat root = Inr s"
    using build_returns(1) unfolding generate_lineage_def by blast
qed

theorem fetch_errors_absorbed_unless_no_connection_witness:
  "(\<exists>s. generate_lineage (\<lambda>_ _. 0) flaky_catalog ''v'' = Inr s
         \<and> ''Error fetching view definition: timeout'' \<in> set (errors s)
         \<and> ''a'' \<notin> fst ` set (ddl_dict s)
         \<and> ''b'' \<in> visited s
         \<and> map_of (table_metadata_dict s) ''b'' = Some sales_columns)
   \<and> (''a'' \<in> reachable offline_catalog ''v'' \<and> \<not> connects offline_catalog ''a''
      \<and> generate_lineage (\<lambda>_ _. 0) offline_catalog ''v'' = Inl StopException)
   \<and> (''b'' \<in> reachable unplugged_catalog ''v'' \<and> \<not> connects unplugged_catalog ''b''
      \<and> generate_lineage (\<lambda>_ _. 0) unplugged_catalog ''v'' = Inl StopException)"
proof -
  have ds: "dependency_set ''SELECT * FROM a JOIN b ON 1 = 1'' = [''a'', ''b'']"
    by code_simp
  have c: "all_connect flaky_catalog"
    by (simp add: all_connect_def flaky_catalog_def)
  note flaky = fetch_errors_absorbed_unless_no_connection [of "\<lambda>_ _. 0" flaky_catalog "''v''"]
  from flaky c obtain s where
    g: "generate_lineage (\<lambda>_ _. 0) flaky_catalog ''v'' = Inr s" by blast
  with flaky have v: "visited s = reachable flaky_catalog ''v''"
    and e: "errors_reported flaky_catalog s" and ok: "records_ok flaky_catalog s"
    by blast+
  have vt: "view_text flaky_catalog ''v'' = ''SELECT * FROM a JOIN b ON 1 = 1''"
    "view_text flaky_catalog ''a'' = []" "view_text flaky_catalog ''b'' = []"
    "view_errors flaky_catalog ''a'' = [''Error fetching view definition: timeout'']"
    "table_columns flaky_catalog ''b'' = sales_columns"
    by (simp_all add: view_text_def view_errors_def view_outcome_def table_columns_def
          split_name_def table_outcome_def flaky_catalog_def)
  have rv: "''v'' \<in> reachable flaky_catalog ''v''" by (rule reachable_root)
  have "''a'' \<in> reachable flaky_catalog ''v''"
    using rv by (rule reachable_step) (simp add: vt ds)
  then have va: "''a'' \<in> visited s" by (simp add: v)
  have "''b'' \<in> reachable flaky_catalog ''v''"
    using rv by (rule reachable_step) (simp add: vt ds)
  then have vb: "''b'' \<in> visited s" by (simp add: v)
  have 1: "''Error fetching view definition: timeout'' \<in> set (errors s)"
    using e va by (auto simp: errors_reported_def vt)
  have "map_of (ddl_dict s) ''a'' = None"
    using ok by (simp add: records_ok_def vt)
  then have 2: "''a'' \<notin> fst ` set (ddl_dict s)"
    by (simp add: map_of_eq_None_iff)
  have 3: "map_of (table_metadata_dict s) ''b'' = Some sales_columns"
    using ok vb by (simp add: records_ok_def vt sales_columns_def)
  have A: "\<exists>s. generate_lineage (\<lambda>_ _. 0) flaky_catalog ''v'' = Inr s
         \<and> ''Error fetching view definition: timeout'' \<in> set (errors s)
         \<and> ''a'' \<notin> fst ` set (ddl_dict s)
         \<and> ''b'' \<in> visited s
         \<and> map_of (table_metadata_dict s) ''b'' = Some sales_columns"
    by (rule exI [of _ s]) (simp add: g 1 2 vb 3)
  have ot: "view_text offline_catalog ''v'' = ''SELECT * FROM a JOIN b ON 1 = 1''"
    by (simp add: view_text_def view_outcome_def offline_catalog_def)
  have oa: "''a'' \<in> reachable offline_catalog ''v''"
    by (rule reachable_step [OF reachable_root]) (simp add: ot ds)
  have oc: "\<not> connects offline_catalog ''a''"
    by (simp add: connects_def view_outcome_def offline_catalog_def)
  from oa oc have "\<exists>n \<in> reachable offline_catalog ''v''. \<not> connects offline_catalog n" ..
  with fetch_errors_absorbed_unless_no_connection [of "\<lambda>_ _. 0" offline_catalog "''v''"]
  have oh: "generate_lineage (\<lambda>_ _. 0) offline_catalog ''v'' = Inl StopException"
    by simp
  have ut: "view_text unplugged_catalog ''v'' = ''SELECT * FROM a JOIN b ON 1 = 1''"
    by (simp add: view_text_def view_outcome_def unplugged_catalog_def)
  have ub: "''b'' \<in> reachable unplugged_catalog ''v''"
    by (rule reachable_step [OF reachable_root]) (simp add: ut ds)
  have uc: "\<not> connects unplugged_catalog ''b''"
    by (simp add: connects_def view_outcome_def view_text_def table_connects_def
          split_name_def table_outcome_def unplugged_catalog_def)
  from ub uc have "\<exists>n \<in> reachable unplugged_catalog ''v''. \<not> connects unplugged_catalog n" ..
  with fetch_errors_absorbed_unless_no_connection [of "\<lambda>_ _. 0" unplugged_catalog "''v''"]
  have uh: "generate_lineage (\<lambda>_ _. 0) unplugged_catalog ''v'' = Inl StopException"
    by simp
  from A oa oc oh ub uc uh show ?thesis by simp
qed

section \<open>Names with more than one dot\<close>

text \<open>A catalog with one base table: the table \<^verbatim>\<open>b.c\<close> of the schema \<^verbatim>\<open>a\<close>.\<close>

definition dotted_catalog :: catalog where
  "dotted_catalog =
     \<lparr>view_rows = [], table_rows = [((''a'', ''b.c''), TRows sales_columns)]\<rparr>"

text \<open>
  Claim C10. When the builder resolves a name as a table candidate, a name with several
  dots is split at its first dot only: for every name made of a text without dot, a dot
  and a remainder (which may hold further dots), the builder calls
  \<^verbatim>\<open>fetch_table_metadata\<close> with the text before the first dot as the schema and the
  whole remainder as the table, and the rows it gets are recorded under the full name.
\<close>

theorem table_candidate_split_at_first_dot:
  assumes "CHR ''.'' \<notin> set db"
    and "db @ ''.'' @ tbl \<notin> visited s"
    and "view_text cat (db @ ''.'' @ tbl) = []"
    and "build_full_lineage ord cat (db @ ''.'' @ tbl) s = Inr s'"
  shows "fetches s' = fetches s @ [ViewFetch (db @ ''.'' @ tbl), TableFetch db tbl]
       \<and> table_metadata_dict s' =
           (case table_outcome cat db tbl of
              TRows rows \<Rightarrow>
                if rows \<noteq> [] then dict_set (table_metadata_dict s) (db @ ''.'' @ tbl) rows
                else table_metadata_dict s
            | _ \<Rightarrow> table_metadata_dict s)"
proof -
  let ?n = "db @ ''.'' @ tbl"
  have sp: "split_name ?n = Inr (db, tbl)" using assms(1) by (rule split_name_append)
  have conn: "view_outcome cat ?n \<noteq> VNoConnection"
    using assms(2,4) by (auto simp: build_stop)
  from build_leaf_cases [OF assms(2) conn assms(3,4)] have
    s': "s' = resolved cat ?n (entered cat ?n s)" by simp
  have tc: "table_call ?n = TableFetch db tbl"
    by (simp only: table_call_def sp) simp
  have cols: "table_columns cat ?n =
                (case table_outcome cat db tbl of TRows rows \<Rightarrow> rows | _ \<Rightarrow> [])"
    by (simp only: table_columns_def sp) simp
  have 1: "fetches s' = fetches s @ [ViewFetch ?n, TableFetch db tbl]"
    unfolding s' by (simp only: resolved_def entered_def tc) simp
  have "table_metadata_dict s' =
           (if table_columns cat ?n \<noteq> []
            then dict_set (table_metadata_dict s) ?n (table_columns cat ?n)
            else table_metadata_dict s)"
    unfolding s' by (simp only: resolved_def entered_def) simp
  then have 2: "table_metadata_dict s' =
           (case table_outcome cat db tbl of
              TRows rows \<Rightarrow>
                if rows \<noteq> [] then dict_set (table_metadata_dict s) ?n rows
                else table_metadata_dict s
            | _ \<Rightarrow> table_metadata_dict s)"
    unfolding cols by (cases "table_outcome cat db tbl") simp_all
  from 1 2 show ?thesis by (rule conjI)
qed

theorem table_candidate_split_at_first_dot_witness:
  "\<exists>s'. build_full_lineage insertion_order dotted_catalog ''a.b.c'' initial_state = Inr s'
      \<and> fetches s' = [ViewFetch ''a.b.c'', TableFetch ''a'' ''b.c'']
      \<and> table_metadata_dict s' = [(''a.b.c'', sales_columns)]"
proof -
  have n: "''a'' @ ''.'' @ ''b.c'' = ''a.b.c''" by simp
  have db: "CHR ''.'' \<notin> set ''a''" by simp
  have nv: "''a.b.c'' \<notin> visited initial_state"
    by (simp add: initial_state_def)
  have vt: "view_text dotted_catalog ''a.b.c'' = []"
    by (simp add: view_text_def view_outcome_def dotted_catalog_def)
  have vo: "view_outcome dotted_catalog ''a.b.c'' \<noteq> VNoConnection"
    by (simp add: view_outcome_def dotted_catalog_def)
  have tc: "table_connects dotted_catalog ''a.b.c''"
    by (simp add: table_connects_def split_name_def split_once_def table_outcome_def
          dotted_catalog_def)
  obtain s' where
    b: "build_full_lineage insertion_order dotted_catalog ''a.b.c'' initial_state = Inr s'"
    using nv vt vo tc by (simp add: build_leaf resolve_table_resolved)
  have t: "table_outcome dotted_catalog ''a'' ''b.c'' = TRows sales_columns"
    by (simp add: table_outcome_def dotted_catalog_def)
  from table_candidate_split_at_first_dot
         [of "''a''" "''b.c''" initial_state dotted_catalog insertion_order s']
  have "fetches s' = [ViewFetch ''a.b.c'', TableFetch ''a'' ''b.c'']
      \<and> table_metadata_dict s' = [(''a.b.c'', sales_columns)]"
    using db nv vt b by (simp add: t initial_state_def sales_columns_def)
  with b show ?thesis by blast
qed

section \<open>The report\<close>

text \<open>
  What \<^verbatim>\<open>run_data_lineage_ui\<close> draws below the input, a saved connection being selected:
  nothing when the button was not pressed or the name is empty, nothing more when the run
  was halted, the warning \<^verbatim>\<open>No view or table definitions found.\<close> when both
  dictionaries are empty, and else the expanders of the two sections in the order they
  are drawn.
\<close>

datatype page =
    Idle
  | Halted halt
  | NoLineage
  | Report (view_expanders: "string list") (table_expanders: "string list")

definition run_data_lineage_ui :: "set_order \<Rightarrow> catalog \<Rightarrow> bool \<Rightarrow> string \<Rightarrow> page" where
  "run_data_lineage_ui ord cat generate_btn view_name =
     (if generate_btn \<and> view_name \<noteq> []
      then (case generate_lineage ord cat view_name of
              Inl h \<Rightarrow> Halted h
            | Inr s \<Rightarrow>
                if ddl_dict s \<noteq> [] \<or> table_metadata_dict s \<noteq> []
                then Report (view_section s) (table_section s)
                else NoLineage)
      else Idle)"

lemma distinct_set_add: "distinct xs \<Longrightarrow> distinct (set_add xs x)"
  by (simp add: set_add_def)

lemma distinct_add_items: "distinct xs \<Longrightarrow> distinct (add_items m xs)"
  by (simp add: add_items_def distinct_set_add)

lemma distinct_fold_add_items: "distinct xs \<Longrightarrow> distinct (fold add_items ms xs)"
  by (induction ms arbitrary: xs) (simp_all add: distinct_add_items)

lemma distinct_dependency_set: "distinct (dependency_set sql)"
  by (simp add: dependency_set_def distinct_fold_add_items)

lemma distinct_extract_dependencies: "distinct (extract_dependencies ord sql)"
  by (simp add: extract_dependencies_def list_of_set_def distinct_dependency_set)

lemma singleton_list:
  assumes "distinct xs" and "set xs = {b}"
  shows "xs = [b]"
proof (cases xs)
  case Nil
  with assms show ?thesis by simp
next
  case (Cons x ys)
  with assms have "x = b" and "set ys \<subseteq> {b}" and "b \<notin> set ys" by auto
  then have "ys = []" by (cases ys) auto
  with Cons \<open>x = b\<close> show ?thesis by simp
qed

lemma leaves_loop:
  assumes "\<forall>d \<in> set ds. view_text cat d = []"
    and "for_dependencies ord cat n ds s = Inr s'"
    and "distinct ds"
    and "fst ` set (table_metadata_dict s) \<subseteq> visited s"
  shows "ddl_dict s' = ddl_dict s
       \<and> map fst (table_metadata_dict s') =
           map fst (table_metadata_dict s)
           @ filter (\<lambda>d. d \<notin> visited s \<and> table_columns cat d \<noteq> []) ds"
  using assms
proof (induction ds arbitrary: s)
  case Nil
  then show ?case by simp
next
  case (Cons d ds)
  let ?s0 = "s\<lparr>graph := add_edge (graph s) d n\<rparr>"
  from Cons.prems(2) obtain s1 where
    b: "build_full_lineage ord cat d ?s0 = Inr s1"
    and f: "for_dependencies ord cat n ds s1 = Inr s'"
    by (auto split: sum.splits)
  have vt: "view_text cat d = []" using Cons.prems(1) by simp
  have dn: "d \<notin> set ds" and dd: "distinct ds" using Cons.prems(3) by simp_all
  have leaves: "\<forall>d \<in> set ds. view_text cat d = []" using Cons.prems(1) by simp
  have same: "filter (\<lambda>x. x \<noteq> d \<and> x \<notin> visited s \<and> table_columns cat x \<noteq> []) ds
            = filter (\<lambda>x. x \<notin> visited s \<and> table_columns cat x \<noteq> []) ds"
    using dn by (intro filter_cong) auto
  show ?case
  proof (cases "d \<in> visited s")
    case True
    then have "s1 = ?s0" using b by (simp add: build_visited)
    with Cons.IH [OF leaves f dd] Cons.prems(4) True show ?thesis by simp
  next
    case False
    have conn: "view_outcome cat d \<noteq> VNoConnection"
      using b False by (auto simp: build_stop)
    from build_leaf_cases [OF _ conn vt b] False have
      s1: "s1 = resolved cat d (entered cat d ?s0)" by simp
    have fresh: "d \<notin> fst ` set (table_metadata_dict s)"
      using Cons.prems(4) False by blast
    have keys1: "fst ` set (table_metadata_dict s1) \<subseteq> visited s1"
      using Cons.prems(4) by (auto simp: s1 resolved_def entered_def keys_dict_set)
    have v1: "visited s1 = insert d (visited s)" "ddl_dict s1 = ddl_dict s"
      by (simp_all add: s1 resolved_def entered_def)
    have t1: "map fst (table_metadata_dict s1) =
                map fst (table_metadata_dict s) @ (if table_columns cat d \<noteq> [] then [d] else [])"
      using fresh by (simp add: s1 resolved_def entered_def dict_set_fresh)
    from Cons.IH [OF leaves f dd keys1] show ?thesis
      using False by (simp add: v1 t1 same)
  qed
qed


lemma view_text_connects: "view_text cat n \<noteq> [] \<Longrightarrow> view_outcome cat n \<noteq> VNoConnection"
  by (auto simp: view_text_def)

text \<open>
  The names in the order they were discovered: the order in which their definitions were
  fetched.
\<close>

fun fetched_views :: "fetch_call list \<Rightarrow> string list" where
  "fetched_views [] = []"
| "fetched_views (ViewFetch n # fs) = n # fetched_views fs"
| "fetched_views (TableFetch d t # fs) = fetched_views fs"

lemma fetched_views_append:
  "fetched_views (xs @ ys) = fetched_views xs @ fetched_views ys"
  by (induction xs rule: fetched_views.induct) simp_all

lemma fetched_views_table_call: "fetched_views [table_call n] = []"
  using split_name_total [of n] by (auto simp: table_call_def)

text \<open>
  The keys of the two dictionaries are the names discovered, in the order of their
  discovery: the views in \<^verbatim>\<open>ddl_dict\<close>, the tables with rows in
  \<^verbatim>\<open>table_metadata_dict\<close>.
\<close>

definition discovery_order :: "catalog \<Rightarrow> lineage_state \<Rightarrow> bool" where
  "discovery_order cat s \<longleftrightarrow>
     map fst (ddl_dict s) = filter (\<lambda>n. view_text cat n \<noteq> []) (fetched_views (fetches s))
   \<and> map fst (table_metadata_dict s) =
       filter (\<lambda>n. view_text cat n = [] \<and> table_columns cat n \<noteq> []) (fetched_views (fetches s))
   \<and> set (fetched_views (fetches s)) \<subseteq> visited s"

lemma discovery_order_keys:
  assumes "discovery_order cat s" and "n \<notin> visited s"
  shows "n \<notin> fst ` set (ddl_dict s)" and "n \<notin> fst ` set (table_metadata_dict s)"
proof -
  have "set (map fst (ddl_dict s)) \<subseteq> visited s"
    and "set (map fst (table_metadata_dict s)) \<subseteq> visited s"
    using assms(1) by (auto simp: discovery_order_def)
  with assms(2) show "n \<notin> fst ` set (ddl_dict s)"
    and "n \<notin> fst ` set (table_metadata_dict s)" by auto
qed

lemma discovery_order_preserved:
  assumes "discovery_order cat s" and "build_full_lineage ord cat n s = Inr s'"
  shows "discovery_order cat s'"
proof (rule invariant_preserved(1) [where I = "discovery_order cat", OF _ _ _ assms])
  fix s d n
  assume "discovery_order cat s"
  then show "discovery_order cat (s\<lparr>graph := add_edge (graph s) d n\<rparr>)"
    by (simp add: discovery_order_def)
next
  fix s n
  assume i: "discovery_order cat s" and nv: "n \<notin> visited s" and t: "view_text cat n \<noteq> []"
  from discovery_order_keys(1) [OF i nv] have
    "dict_set (ddl_dict s) n (view_text cat n) = ddl_dict s @ [(n, view_text cat n)]"
    by (rule dict_set_fresh)
  with i t show "discovery_order cat
      ((entered cat n s)\<lparr>ddl_dict := dict_set (ddl_dict s) n (view_text cat n)\<rparr>)"
    by (auto simp: discovery_order_def entered_def fetched_views_append)
next
  fix s n
  assume i: "discovery_order cat s" and nv: "n \<notin> visited s" and t: "view_text cat n = []"
  from discovery_order_keys(2) [OF i nv] have
    "dict_set (table_metadata_dict s) n (table_columns cat n)
       = table_metadata_dict s @ [(n, table_columns cat n)]"
    by (rule dict_set_fresh)
  with i t show "discovery_order cat (resolved cat n (entered cat n s))"
    by (auto simp: discovery_order_def entered_def resolved_def fetched_views_append
          fetched_views_table_call)
qed

lemma generate_lineage_discovery_order:
  assumes "generate_lineage ord cat root = Inr s"
  shows "discovery_order cat s"
proof -
  have "discovery_order cat initial_state"
    by (simp add: discovery_order_def initial_state_def)
  then show ?thesis
    using assms unfolding generate_lineage_def by (rule discovery_order_preserved)
qed

text \<open>
  The chain: the view \<^verbatim>\<open>a\<close> over the view \<^verbatim>\<open>b\<close> over the view \<^verbatim>\<open>c\<close>, which reads
  the base tables \<^verbatim>\<open>t\<close> and \<^verbatim>\<open>u\<close>.
\<close>

definition chain_catalog :: catalog where
  "chain_catalog =
     \<lparr>view_rows = [(''a'', VRow (Some ''SELECT * FROM b'')),
                   (''b'', VRow (Some ''SELECT * FROM c'')),
                   (''c'', VRow (Some ''SELECT * FROM t JOIN u ON t.k = u.k''))],
      table_rows = [((''dbc'', ''t''), TRows sales_columns),
                    ((''dbc'', ''u''), TRows sales_columns)]\<rparr>"

text \<open>
  Claim C1, as stated, fails: for the root \<^verbatim>\<open>a\<close> over \<^verbatim>\<open>b\<close> over \<^verbatim>\<open>c\<close> the
  section of the view definitions shows \<^verbatim>\<open>c\<close>, then \<^verbatim>\<open>b\<close>, then \<^verbatim>\<open>a\<close>: the
  deepest dependency first and the root last.
\<close>

theorem chain_report_lists_root_last:
  "run_data_lineage_ui insertion_order chain_catalog True ''a'' =
     Report [''c'', ''b'', ''a''] [''t'', ''u'']"
proof -
  have vo: "view_outcome chain_catalog ''a'' \<noteq> VNoConnection"
    "view_outcome chain_catalog ''b'' \<noteq> VNoConnection"
    "view_outcome chain_catalog ''c'' \<noteq> VNoConnection"
    "view_outcome chain_catalog ''t'' \<noteq> VNoConnection"
    "view_outcome chain_catalog ''u'' \<noteq> VNoConnection"
    by (simp_all add: view_outcome_def chain_catalog_def)
  have vt: "view_text chain_catalog ''a'' = ''SELECT * FROM b''"
    "view_text chain_catalog ''b'' = ''SELECT * FROM c''"
    "view_text chain_catalog ''c'' = ''SELECT * FROM t JOIN u ON t.k = u.k''"
    "view_text chain_catalog ''t'' = []" "view_text chain_catalog ''u'' = []"
    by (simp_all add: view_text_def view_outcome_def chain_catalog_def)
  have tb: "table_connects chain_catalog ''t''" "table_connects chain_catalog ''u''"
    "table_columns chain_catalog ''t'' = sales_columns"
    "table_columns chain_catalog ''u'' = sales_columns"
    by (simp_all add: table_connects_def table_columns_def split_name_def table_outcome_def
          chain_catalog_def)
  have sc: "sales_columns \<noteq> []" by (simp add: sales_columns_def)
  have ds: "dependency_set ''SELECT * FROM b'' = [''b'']"
    "dependency_set ''SELECT * FROM c'' = [''c'']"
    "dependency_set ''SELECT * FROM t JOIN u ON t.k = u.k'' = [''t'', ''u'']"
    by code_simp+
  have ex: "extract_dependencies insertion_order ''SELECT * FROM b'' = [''b'']"
    "extract_dependencies insertion_order ''SELECT * FROM c'' = [''c'']"
    "extract_dependencies insertion_order ''SELECT * FROM t JOIN u ON t.k = u.k''
       = [''t'', ''u'']"
    by (simp_all add: extract_dependencies_def list_of_set_def ds insertion_order_def)
  have "\<exists>s. generate_lineage insertion_order chain_catalog ''a'' = Inr s
          \<and> map fst (ddl_dict s) = [''a'', ''b'', ''c'']
          \<and> map fst (table_metadata_dict s) = [''t'', ''u'']"
    by (simp add: generate_lineage_def initial_state_def build_view build_leaf
          resolve_table_resolved resolved_def entered_def vo vt tb sc ex)
  then show ?thesis
    by (auto simp: run_data_lineage_ui_def view_section_def table_section_def)
qed

text \<open>
  Claim C1, amended. For a root view \<^verbatim>\<open>a\<close> that references the view \<^verbatim>\<open>b\<close> only,
  which references the view \<^verbatim>\<open>c\<close> only, which references no view, the definitions
  are discovered in the order \<^verbatim>\<open>a\<close>, \<^verbatim>\<open>b\<close>, \<^verbatim>\<open>c\<close> and the section of the view
  definitions lists them in the reverse of that order: \<^verbatim>\<open>c\<close>, then \<^verbatim>\<open>b\<close>, then
  \<^verbatim>\<open>a\<close>, the deepest dependency first and the root last. The section of the table
  metadata lists the tables in the order of their discovery, which is the order in which
  the dependencies of \<^verbatim>\<open>c\<close> are iterated.
\<close>

theorem chain_report_order:
  assumes "a \<noteq> []" and "distinct [a, b, c]"
    and "set (dependency_set (view_text cat a)) = {b}"
    and "set (dependency_set (view_text cat b)) = {c}"
    and "view_text cat c \<noteq> []"
    and "\<forall>d \<in> set (dependency_set (view_text cat c)). view_text cat d = []"
    and "generate_lineage ord cat a = Inr s"
  shows "run_data_lineage_ui ord cat True a =
           Report [c, b, a]
             (filter (\<lambda>d. table_columns cat d \<noteq> []) (extract_dependencies ord (view_text cat c)))
       \<and> filter (\<lambda>n. view_text cat n \<noteq> []) (fetched_views (fetches s)) = [a, b, c]
       \<and> filter (\<lambda>n. view_text cat n = [] \<and> table_columns cat n \<noteq> [])
           (fetched_views (fetches s))
         = filter (\<lambda>d. table_columns cat d \<noteq> []) (extract_dependencies ord (view_text cat c))"
proof -
  have ta: "view_text cat a \<noteq> []" and tb: "view_text cat b \<noteq> []"
    using assms(3,4) by (auto simp: dependency_set_Nil)
  note tc = assms(5)
  have ea: "extract_dependencies ord (view_text cat a) = [b]"
    by (rule singleton_list)
       (simp_all add: distinct_extract_dependencies set_extract_dependencies assms(3))
  have eb: "extract_dependencies ord (view_text cat b) = [c]"
    by (rule singleton_list)
       (simp_all add: distinct_extract_dependencies set_extract_dependencies assms(4))
  have ne: "a \<noteq> b" "a \<noteq> c" "b \<noteq> c" using assms(2) by simp_all
  define sC where "sC =
    \<lparr>graph = add_edge (add_edge \<lparr>nodes = [], edges = []\<rparr> b a) c b,
     visited = {a, b, c},
     ddl_dict = [(a, view_text cat a), (b, view_text cat b), (c, view_text cat c)],
     table_metadata_dict = [], errors = [],
     fetches = [ViewFetch a, ViewFetch b, ViewFetch c]\<rparr>"
  have "generate_lineage ord cat a =
          for_dependencies ord cat c (extract_dependencies ord (view_text cat c)) sC"
    using ne ta tb tc
    by (simp add: generate_lineage_def initial_state_def build_view view_text_connects ea eb
          entered_def view_text_no_errors sC_def insert_commute split: sum.splits)
  with assms(7) have
    f: "for_dependencies ord cat c (extract_dependencies ord (view_text cat c)) sC = Inr s"
    by simp
  have leaves: "\<forall>d \<in> set (extract_dependencies ord (view_text cat c)). view_text cat d = []"
    using assms(6) by (simp add: set_extract_dependencies)
  from leaves_loop [OF leaves f distinct_extract_dependencies] have
    d: "ddl_dict s = ddl_dict sC"
    and t: "map fst (table_metadata_dict s) =
              filter (\<lambda>d. d \<notin> visited sC \<and> table_columns cat d \<noteq> [])
                (extract_dependencies ord (view_text cat c))"
    by (simp_all add: sC_def)
  have "filter (\<lambda>d. d \<notin> visited sC \<and> table_columns cat d \<noteq> [])
          (extract_dependencies ord (view_text cat c))
        = filter (\<lambda>d. table_columns cat d \<noteq> []) (extract_dependencies ord (view_text cat c))"
    using leaves ta tb tc by (intro filter_cong) (auto simp: sC_def)
  with t have t': "table_section s =
      filter (\<lambda>d. table_columns cat d \<noteq> []) (extract_dependencies ord (view_text cat c))"
    by (simp add: table_section_def)
  have k: "map fst (ddl_dict s) = [a, b, c]"
    by (simp add: d sC_def)
  then have v: "view_section s = [c, b, a]" "ddl_dict s \<noteq> []"
    by (auto simp: view_section_def)
  have 1: "run_data_lineage_ui ord cat True a =
           Report [c, b, a]
             (filter (\<lambda>d. table_columns cat d \<noteq> []) (extract_dependencies ord (view_text cat c)))"
    using assms(1,7) v t' by (simp add: run_data_lineage_ui_def)
  note o = generate_lineage_discovery_order [OF assms(7)]
  have 2: "filter (\<lambda>n. view_text cat n \<noteq> []) (fetched_views (fetches s)) = [a, b, c]"
    using o k by (simp add: discovery_order_def)
  have 3: "filter (\<lambda>n. view_text cat n = [] \<and> table_columns cat n \<noteq> [])
           (fetched_views (fetches s))
         = filter (\<lambda>d. table_columns cat d \<noteq> []) (extract_dependencies ord (view_text cat c))"
    using o t' by (simp add: discovery_order_def table_section_def)
  from 1 2 3 show ?thesis by simp
qed

theorem chain_report_order_witness:
  "\<exists>s. generate_lineage insertion_order chain_catalog ''a'' = Inr s
     \<and> run_data_lineage_ui insertion_order chain_catalog True ''a'' =
         Report [''c'', ''b'', ''a''] [''t'', ''u'']
     \<and> filter (\<lambda>n. view_text chain_catalog n \<noteq> []) (fetched_views (fetches s))
         = [''a'', ''b'', ''c'']"
proof -
  have vt: "view_text chain_catalog ''a'' = ''SELECT * FROM b''"
    "view_text chain_catalog ''b'' = ''SELECT * FROM c''"
    "view_text chain_catalog ''c'' = ''SELECT * FROM t JOIN u ON t.k = u.k''"
    "view_text chain_catalog ''t'' = []" "view_text chain_catalog ''u'' = []"
    by (simp_all add: view_text_def view_outcome_def chain_catalog_def)
  have tc: "table_columns chain_catalog ''t'' = sales_columns"
    "table_columns chain_catalog ''u'' = sales_columns"
    by (simp_all add: table_columns_def split_name_def table_outcome_def chain_catalog_def)
  have ds: "dependency_set ''SELECT * FROM b'' = [''b'']"
    "dependency_set ''SELECT * FROM c'' = [''c'']"
    "dependency_set ''SELECT * FROM t JOIN u ON t.k = u.k'' = [''t'', ''u'']"
    by code_simp+
  have ex: "extract_dependencies insertion_order ''SELECT * FROM t JOIN u ON t.k = u.k''
              = [''t'', ''u'']"
    by (simp add: extract_dependencies_def list_of_set_def ds insertion_order_def)
  have "all_connect chain_catalog"
    by (simp add: all_connect_def chain_catalog_def)
  then obtain s where g: "generate_lineage insertion_order chain_catalog ''a'' = Inr s"
    using build_returns(1) unfolding generate_lineage_def by blast
  have "run_data_lineage_ui insertion_order chain_catalog True ''a'' =
          Report [''c'', ''b'', ''a'']
            (filter (\<lambda>d. table_columns chain_catalog d \<noteq> [])
               (extract_dependencies insertion_order (view_text chain_catalog ''c'')))
       \<and> filter (\<lambda>n. view_text chain_catalog n \<noteq> []) (fetched_views (fetches s))
           = [''a'', ''b'', ''c'']
       \<and> filter (\<lambda>n. view_text chain_catalog n = [] \<and> table_columns chain_catalog n \<noteq> [])
           (fetched_views (fetches s))
         = filter (\<lambda>d. table_columns chain_catalog d \<noteq> [])
             (extract_dependencies insertion_order (view_text chain_catalog ''c''))"
    by (rule chain_report_order [OF _ _ _ _ _ _ g]) (simp_all add: vt ds)
  then have "run_data_lineage_ui insertion_order chain_catalog True ''a'' =
          Report [''c'', ''b'', ''a''] [''t'', ''u'']
       \<and> filter (\<lambda>n. view_text chain_catalog n \<noteq> []) (fetched_views (fetches s))
           = [''a'', ''b'', ''c'']"
    by (simp add: vt ex tc sales_columns_def)
  then show ?thesis
    by (intro exI [of _ s] conjI g) simp_all
qed

section \<open>The set the extractor returns\<close>


















end
